theory Spec2Isabelle
  imports Main
begin

section \<open>Shared conventions\<close>

text \<open>
  Python strings are modelled as HOL strings. A HOL character is one byte: text is held
  in UTF-8, so the model is exact for ASCII text. A character outside ASCII takes several
  bytes; \<open>py_len\<close> counts it once, as Python's \<open>len\<close> does, and it is never a letter, a
  digit or white space here. Python integers are \<open>int\<close>. Every \<open>raise\<close> of the source is
  a value \<open>Inl e\<close> of the result.
\<close>

datatype error =
    FileNotFoundError string
  | EnvironmentError
  | RuntimeError string
  | ValueError
  | IndexError
  | KeyError string
  | TypeError
  | SystemExit

text \<open>
  \<open>str.lower\<close> and \<open>str.strip\<close> belong to the Python runtime and follow the Unicode
  tables (\<open>str.lower\<close> also lowers letters outside ASCII, \<open>str.strip\<close> also removes
  white space outside ASCII). The sheet packer only compares their results, so there
  they are parameters, \<open>lower\<close> and \<open>strip\<close>, and what is proved holds whatever they
  compute. \<open>py_lower\<close> and \<open>py_strip\<close> below are the two methods on ASCII text; the card
  layout uses them, and the examples of the sheet packer put them in for the parameters.
\<close>

text \<open>\<open>str.lower\<close> on ASCII letters.\<close>

definition lower_char :: "char \<Rightarrow> char" where
  "lower_char c =
     (case map_of (zip ''ABCDEFGHIJKLMNOPQRSTUVWXYZ'' ''abcdefghijklmnopqrstuvwxyz'') c of
        Some d \<Rightarrow> d
      | None \<Rightarrow> c)"

definition py_lower :: "string \<Rightarrow> string" where
  "py_lower s = map lower_char s"

text \<open>
  \<open>str.isspace\<close> on one character: tab, line feed, vertical tab, form feed, carriage
  return, the four separators \<open>0x1c\<close> to \<open>0x1f\<close>, and the space.
\<close>

definition py_isspace :: "char \<Rightarrow> bool" where
  "py_isspace c \<longleftrightarrow>
     c \<in> set [CHR 0x09, CHR 0x0A, CHR 0x0B, CHR 0x0C, CHR 0x0D,
               CHR 0x1C, CHR 0x1D, CHR 0x1E, CHR 0x1F, CHR 0x20]"

text \<open>\<open>str.strip()\<close>: white space removed at both ends.\<close>

definition py_strip :: "string \<Rightarrow> string" where
  "py_strip s = rev (dropWhile py_isspace (rev (dropWhile py_isspace s)))"

text \<open>
  \<open>len\<close> of a string: the number of its characters. In UTF-8 every character has one
  byte that is not a continuation byte (\<open>0x80\<close> to \<open>0xBF\<close>).
\<close>

definition utf8_cont :: "char \<Rightarrow> bool" where
  "utf8_cont c \<longleftrightarrow> 128 \<le> (of_char c :: nat) \<and> (of_char c :: nat) < 192"

definition py_len :: "string \<Rightarrow> nat" where
  "py_len s = length (filter (\<lambda>c. \<not> utf8_cont c) s)"

section \<open>Sheet packing: \<open>collect_and_print.py\<close>\<close>

subsection \<open>Page size and grid positions\<close>

text \<open>
  \<open>int(round(x))\<close> for \<open>x = n / 10^9\<close>: Python rounds to the nearest integer, a tie
  to the even one.
\<close>

definition py_round_e9 :: "int \<Rightarrow> int" where
  "py_round_e9 n =
     (let q = n div 1000000000; r = n mod 1000000000
      in if 2 * r < 1000000000 then q
         else if 1000000000 < 2 * r then q + 1
         else if even q then q else q + 1)"

text \<open>
  \<open>a4_dimensions\<close>. The inch sizes \<open>8.267716535\<close> and \<open>11.692913386\<close> are taken as
  exact decimals (in units of \<open>10^-9\<close> inch). The source multiplies binary doubles: that
  gives the same integers unless an exact product lies within the doubles' rounding error
  (a relative error of about \<open>10^-16\<close>) of a half, which first happens at
  \<open>dpi = 68181391\<close>; and the conversion of \<open>dpi\<close> to a double overflows from \<open>2^1024\<close> on.
  At 300 dpi the products are \<open>2480.31...\<close> and \<open>3507.87...\<close>, far from a half.
\<close>

definition a4_dimensions :: "int \<Rightarrow> string \<Rightarrow> int \<times> int" where
  "a4_dimensions dpi orientation =
     (let (w_in, h_in) =
            (if orientation = ''a4portrait'' then (8267716535, 11692913386)
             else (11692913386, 8267716535))
      in (py_round_e9 (w_in * dpi), py_round_e9 (h_in * dpi)))"

text \<open>\<open>range(n)\<close>: empty when \<open>n \<le> 0\<close>.\<close>

definition py_range :: "int \<Rightarrow> int list" where
  "py_range n = map int [0..<nat n]"

text \<open>\<open>layout_positions\<close>: rows in the outer loop, columns in the inner one.\<close>

definition layout_positions ::
  "int \<Rightarrow> int \<Rightarrow> int \<Rightarrow> int \<Rightarrow> int \<Rightarrow> int \<Rightarrow> int \<Rightarrow> int \<Rightarrow> (int \<times> int) list" where
  "layout_positions sheet_w sheet_h card_w card_h cols rows margin_px gutter_px =
     (let total_cards_w = cols * card_w + (cols - 1) * gutter_px;
          total_cards_h = rows * card_h + (rows - 1) * gutter_px;
          x0 = (sheet_w - total_cards_w) div 2;
          y0 = (sheet_h - total_cards_h) div 2
      in concat (map (\<lambda>r. map (\<lambda>c. (x0 + c * (card_w + gutter_px),
                                       y0 + r * (card_h + gutter_px)))
                                (py_range cols))
                     (py_range rows)))"

subsection \<open>Crop marks\<close>

type_synonym segment = "(int \<times> int) \<times> (int \<times> int)"

text \<open>\<open>draw_crop_marks\<close>: the eight lines drawn, in the order of the source.\<close>

definition draw_crop_marks :: "int \<Rightarrow> int \<Rightarrow> int \<Rightarrow> int \<Rightarrow> int \<Rightarrow> int \<Rightarrow> segment list" where
  "draw_crop_marks x y w h len_px offset =
     [((x - offset - len_px, y - offset), (x - offset, y - offset)),
      ((x - offset, y - offset - len_px), (x - offset, y - offset)),
      ((x + w + offset, y - offset), (x + w + offset + len_px, y - offset)),
      ((x + w + offset, y - offset - len_px), (x + w + offset, y - offset)),
      ((x - offset - len_px, y + h + offset), (x - offset, y + h + offset)),
      ((x - offset, y + h + offset), (x - offset, y + h + offset + len_px)),
      ((x + w + offset, y + h + offset), (x + w + offset + len_px, y + h + offset)),
      ((x + w + offset, y + h + offset), (x + w + offset, y + h + offset + len_px))]"

subsection \<open>Resolving the requested cards\<close>

text \<open>
  \<open>collect_files\<close>. \<open>cards_dir\<close> is the list of \<open>*.svg\<close> files that \<open>glob\<close> yields, each
  file named by its stem, and \<open>lower\<close> is \<open>str.lower\<close>. The index maps the lower-cased stem
  to the file; a later file with the same key replaces an earlier one.
\<close>

definition build_index :: "(string \<Rightarrow> string) \<Rightarrow> string list \<Rightarrow> (string \<rightharpoonup> string)" where
  "build_index lower cards_dir = fold (\<lambda>p index. index(lower p \<mapsto> p)) cards_dir Map.empty"

fun collect_loop ::
  "(string \<Rightarrow> string) \<Rightarrow> (string \<rightharpoonup> string) \<Rightarrow> (string \<times> int) list \<Rightarrow> string list
     \<Rightarrow> error + string list" where
  "collect_loop lower index [] out = Inr out"
| "collect_loop lower index ((base, count) # requests) out =
     (let key = lower base
      in case index key of
           None \<Rightarrow> Inl (FileNotFoundError base)
         | Some p \<Rightarrow> collect_loop lower index requests (out @ replicate (nat count) p))"

definition collect_files ::
  "(string \<Rightarrow> string) \<Rightarrow> string list \<Rightarrow> (string \<times> int) list \<Rightarrow> error + string list" where
  "collect_files lower cards_dir requests =
     collect_loop lower (build_index lower cards_dir) requests []"

subsection \<open>Rasterizing and paginating\<close>

text \<open>
  What a run does to the outside world: the Inkscape exports it started, in order, and
  the document it saved. A rasterized card is named by its number (\<open>card_0001.png\<close> is
  number 1) and the SVG it was made from.
\<close>

type_synonym png = "nat \<times> string"

record page =
  placed :: "(png \<times> (int \<times> int)) list"
  marks :: "segment list"

record world =
  rasterized :: "png list"
  saved_pdf :: "page list option"

text \<open>
  The first loop of \<open>make_sheets\<close>. \<open>export_ok svg\<close> says whether Inkscape's export of
  \<open>svg\<close> returns code 0; otherwise \<open>rasterize_svg\<close> raises \<open>RuntimeError\<close>.
\<close>

fun rasterize_all ::
  "(string \<Rightarrow> bool) \<Rightarrow> png list \<Rightarrow> png list \<Rightarrow> world \<Rightarrow> (error + png list) \<times> world" where
  "rasterize_all export_ok [] pngs w = (Inr pngs, w)"
| "rasterize_all export_ok ((i, svg) # rest) pngs w =
     (let w' = w\<lparr>rasterized := rasterized w @ [(i, svg)]\<rparr>
      in if export_ok svg then rasterize_all export_ok rest (pngs @ [(i, svg)]) w'
         else (Inl (RuntimeError svg), w'))"

definition make_page :: "png list \<Rightarrow> (int \<times> int) list \<Rightarrow> bool \<Rightarrow> int \<Rightarrow> int \<Rightarrow> page" where
  "make_page chunk positions add_crop card_w card_h =
     \<lparr>placed = zip chunk positions,
      marks = (if add_crop
               then concat (map (\<lambda>(p, (x, y)). draw_crop_marks x y card_w card_h 28 8)
                                (zip chunk positions))
               else [])\<rparr>"

text \<open>
  The second loop: \<open>for i in range(0, len(pngs), per_page)\<close> with
  \<open>chunk = pngs[i:i+per_page]\<close>, for a positive step.
\<close>

function page_loop ::
  "nat \<Rightarrow> nat \<Rightarrow> png list \<Rightarrow> (int \<times> int) list \<Rightarrow> bool \<Rightarrow> int \<Rightarrow> int \<Rightarrow> page list" where
  "page_loop i per_page pngs positions add_crop card_w card_h =
     (if per_page = 0 \<or> length pngs \<le> i then []
      else make_page (take per_page (drop i pngs)) positions add_crop card_w card_h
           # page_loop (i + per_page) per_page pngs positions add_crop card_w card_h)"
  by pat_completeness auto
termination
  by (relation "measure (\<lambda>(i, per_page, pngs, positions, add_crop, card_w, card_h). length pngs - i)")
     auto

declare page_loop.simps [simp del]

text \<open>
  \<open>range\<close> raises \<open>ValueError\<close> on a zero step; with a negative step from 0 it is empty.
\<close>

definition paginate ::
  "png list \<Rightarrow> int \<Rightarrow> (int \<times> int) list \<Rightarrow> bool \<Rightarrow> int \<Rightarrow> int \<Rightarrow> error + page list" where
  "paginate pngs per_page positions add_crop card_w card_h =
     (if per_page = 0 then Inl ValueError
      else if per_page < 0 then Inr []
      else Inr (page_loop 0 (nat per_page) pngs positions add_crop card_w card_h))"

text \<open>
  \<open>make_sheets\<close>. \<open>inkscape\<close> is what \<open>find_inkscape\<close> returned (empty: not found).
  \<open>pages[0]\<close> raises \<open>IndexError\<close> when there is no page.
\<close>

definition make_sheets ::
  "string \<Rightarrow> (string \<Rightarrow> bool) \<Rightarrow> string list \<Rightarrow> int \<Rightarrow> string \<Rightarrow> int \<Rightarrow> int \<Rightarrow> int \<Rightarrow> int
     \<Rightarrow> int \<Rightarrow> int \<Rightarrow> bool \<Rightarrow> world \<Rightarrow> (error + unit) \<times> world" where
  "make_sheets inkscape export_ok svg_paths dpi orientation cols rows margin_px gutter_px
               card_w card_h add_crop w =
     (if inkscape = [] then (Inl EnvironmentError, w)
      else
        let (sheet_w, sheet_h) = a4_dimensions dpi orientation;
            positions = layout_positions sheet_w sheet_h card_w card_h cols rows margin_px gutter_px;
            per_page = cols * rows
        in case rasterize_all export_ok (zip [1..<Suc (length svg_paths)] svg_paths) [] w of
             (Inl e, w') \<Rightarrow> (Inl e, w')
           | (Inr pngs, w') \<Rightarrow>
               (case paginate pngs per_page positions add_crop card_w card_h of
                  Inl e \<Rightarrow> (Inl e, w')
                | Inr pages \<Rightarrow>
                    if pages = [] then (Inl IndexError, w')
                    else (Inr (), w'\<lparr>saved_pdf := Some pages\<rparr>)))"

subsection \<open>The command line\<close>

text \<open>
  The parsed arguments. An \<open>--add\<close> item is given as its name and count, already split
  at \<open>=\<close> and converted by \<open>int\<close>. \<open>strip\<close> is \<open>str.strip\<close>.
\<close>

record args =
  arg_add :: "(string \<times> int) list"
  arg_dpi :: int
  arg_orientation :: string
  arg_cols :: int
  arg_rows :: int
  arg_margin :: int
  arg_gutter :: int
  arg_crop :: bool

definition parse_adds ::
  "(string \<Rightarrow> string) \<Rightarrow> (string \<times> int) list \<Rightarrow> (string \<times> int) list" where
  "parse_adds strip add_list =
     map (\<lambda>(name, cnt). (strip name, cnt)) (filter (\<lambda>(name, cnt). 0 < cnt) add_list)"

text \<open>
  \<open>main\<close>: no request is an argument error (\<open>ap.error\<close> exits); the card width and
  height are the defaults of \<open>make_sheets\<close>.
\<close>

definition main ::
  "(string \<Rightarrow> string) \<Rightarrow> (string \<Rightarrow> string) \<Rightarrow> string list \<Rightarrow> string \<Rightarrow> (string \<Rightarrow> bool)
     \<Rightarrow> args \<Rightarrow> world \<Rightarrow> (error + unit) \<times> world" where
  "main lower strip cards_dir inkscape export_ok a w =
     (let requests = parse_adds strip (arg_add a)
      in if requests = [] then (Inl SystemExit, w)
         else case collect_files lower cards_dir requests of
                Inl e \<Rightarrow> (Inl e, w)
              | Inr svg_list \<Rightarrow>
                  make_sheets inkscape export_ok svg_list (arg_dpi a) (arg_orientation a)
                              (arg_cols a) (arg_rows a) (arg_margin a) (arg_gutter a)
                              744 1039 (arg_crop a) w)"

section \<open>Card layout: \<open>generate_cards.py\<close>\<close>

subsection \<open>Formatting and results\<close>

text \<open>\<open>str\<close> of an integer, as an f-string prints it.\<close>

definition digit_char :: "nat \<Rightarrow> char" where
  "digit_char n = ''0123456789'' ! n"

fun str_nat :: "nat \<Rightarrow> string" where
  "str_nat n = (if n < 10 then [digit_char n] else str_nat (n div 10) @ [digit_char (n mod 10)])"

declare str_nat.simps [simp del]

definition str_int :: "int \<Rightarrow> string" where
  "str_int i = (if i < 0 then CHR ''-'' # str_nat (nat (- i)) else str_nat (nat i))"

text \<open>\<open>sep.join(xs)\<close>.\<close>

fun py_join :: "string \<Rightarrow> string list \<Rightarrow> string" where
  "py_join sep [] = []"
| "py_join sep [x] = x"
| "py_join sep (x # y # ys) = x @ sep @ py_join sep (y # ys)"

text \<open>Sequencing of steps that may raise.\<close>

definition and_then :: "error + 'a \<Rightarrow> ('a \<Rightarrow> error + 'b) \<Rightarrow> error + 'b" where
  "and_then r f = (case r of Inl e \<Rightarrow> Inl e | Inr v \<Rightarrow> f v)"

subsection \<open>Themes\<close>

text \<open>
  A theme is a dictionary from keys to values. A value is a string (a colour, a font) or
  a sequence of integers (a size, a rectangle, a text anchor); override values come
  from JSON, where the numbers are taken to be integers. Unpacking a sequence of the
  wrong length raises \<open>ValueError\<close>. A string where a sequence is expected is taken as
  \<open>TypeError\<close>: Python would unpack a string of the right length into its characters
  and fail, if at all, where it computes with them; nothing below is stated about a
  theme with a string under a geometry key.
\<close>

datatype tval = Str string | Tup "int list"

type_synonym theme = "string \<rightharpoonup> tval"

definition fmt_tval :: "tval \<Rightarrow> string" where
  "fmt_tval v =
     (case v of
        Str s \<Rightarrow> s
      | Tup xs \<Rightarrow> ''['' @ py_join '', '' (map str_int xs) @ '']'')"

definition unpack2 :: "theme \<Rightarrow> string \<Rightarrow> error + (int \<times> int)" where
  "unpack2 th k =
     (case th k of
        None \<Rightarrow> Inl (KeyError k)
      | Some (Str s) \<Rightarrow> Inl TypeError
      | Some (Tup [a, b]) \<Rightarrow> Inr (a, b)
      | Some (Tup xs) \<Rightarrow> Inl ValueError)"

definition unpack3 :: "theme \<Rightarrow> string \<Rightarrow> error + (int \<times> int \<times> int)" where
  "unpack3 th k =
     (case th k of
        None \<Rightarrow> Inl (KeyError k)
      | Some (Str s) \<Rightarrow> Inl TypeError
      | Some (Tup [a, b, c]) \<Rightarrow> Inr (a, b, c)
      | Some (Tup xs) \<Rightarrow> Inl ValueError)"

definition unpack4 :: "theme \<Rightarrow> string \<Rightarrow> error + (int \<times> int \<times> int \<times> int)" where
  "unpack4 th k =
     (case th k of
        None \<Rightarrow> Inl (KeyError k)
      | Some (Str s) \<Rightarrow> Inl TypeError
      | Some (Tup [a, b, c, d]) \<Rightarrow> Inr (a, b, c, d)
      | Some (Tup xs) \<Rightarrow> Inl ValueError)"

text \<open>
  An f-string is a list of pieces, evaluated from left to right: literal text, an
  integer, or a theme entry \<open>theme["key"]\<close>.
\<close>

datatype piece = Lit string | Num int | Key string

fun fstr :: "theme \<Rightarrow> piece list \<Rightarrow> error + string" where
  "fstr th [] = Inr []"
| "fstr th (Lit s # ps) = and_then (fstr th ps) (\<lambda>r. Inr (s @ r))"
| "fstr th (Num i # ps) = and_then (fstr th ps) (\<lambda>r. Inr (str_int i @ r))"
| "fstr th (Key k # ps) =
     (case th k of
        None \<Rightarrow> Inl (KeyError k)
      | Some v \<Rightarrow> and_then (fstr th ps) (\<lambda>r. Inr (fmt_tval v @ r)))"

text \<open>
  \<open>get_theme\<close>: the default theme, updated by the card's overrides (\<open>name\<close>), and the
  inner frame colour set from the rarity palette when the rarity is one of its keys.
\<close>

definition rarity_colors :: "string \<rightharpoonup> string" where
  "rarity_colors =
     map_of [(''Common'', ''#B0B0B0''),
             (''Uncommon'', ''#81AD82''),
             (''Rare'', ''#B8D8F1''),
             (''Very Rare'', ''#F1DAB6''),
             (''Legendary'', ''#CF9F9F''),
             (''Quest'', ''#E9E3B5'')]"

definition default_theme :: theme where
  "default_theme =
     (let card_width = 744;
          card_height = 1039;
          outer_padding = 12;
          inner_padding = outer_padding + 6;
          inner_width = card_width - 2 * inner_padding;
          title_h = 52;
          art_y = inner_padding + title_h + 6;
          art_h = 430;
          type_y = art_y + art_h + 6;
          type_h = 52;
          rules_y = type_y + type_h + 6;
          rules_h = 360;
          opt_y = rules_y + rules_h + 6;
          opt_h = 52
      in map_of
        [(''frame_bg'', Str ''#1b1b1b''),
         (''frame_inner'', Str ''#B0B0B0''),
         (''frame_border'', Str ''#121212''),
         (''title_bg'', Str ''#e9e3d9''),
         (''title_fg'', Str ''#111''),
         (''art_bg'', Str ''#ddd''),
         (''type_bg'', Str ''#ece7de''),
         (''type_fg'', Str ''#222''),
         (''rules_bg'', Str ''#f6f2ea''),
         (''rules_fg'', Str ''#222''),
         (''flavor_fg'', Str ''#555''),
         (''footer_fg'', Str ''#444''),
         (''pt_bg'', Str ''#e9e3d9''),
         (''pt_fg'', Str ''#111''),
         (''font_serif'', Str ''Georgia, 'Times New Roman', serif''),
         (''font_sans'', Str ''Inter, Arial, sans-serif''),
         (''card_sz'', Tup [card_width, card_height]),
         (''inner_rec'', Tup [outer_padding, outer_padding,
                              card_width - 2 * outer_padding, card_height - 2 * outer_padding]),
         (''title_rec'', Tup [inner_padding, inner_padding, inner_width, title_h]),
         (''title_txt_rec'', Tup [inner_padding + 18, inner_padding + title_h - 16, 32]),
         (''title_rarity_rec'',
            Tup [card_width - 2 * inner_padding - 18, inner_padding + title_h - 16, 24]),
         (''art_rec'', Tup [inner_padding, art_y, inner_width, art_h]),
         (''type_rec'', Tup [inner_padding, type_y, inner_width, type_h]),
         (''type_txt_rec'', Tup [inner_padding + 18, type_y + type_h - 18, 24]),
         (''rules_rec'', Tup [inner_padding, rules_y, inner_width, rules_h]),
         (''rules_txt_rec'', Tup [inner_padding + 18, rules_y + 6 + 24, 24]),
         (''flavor_txt_rec'', Tup [inner_padding + 18, rules_y + rules_h - 48, 24]),
         (''footer_txt_rec_l'', Tup [inner_padding + 11, card_height - inner_padding - 6, 11]),
         (''footer_txt_rec_r'',
            Tup [card_width - 2 * inner_padding - 11, card_height - inner_padding - 6, 11]),
         (''opt_box'', Tup [inner_padding + inner_width, opt_y, 150, 54]),
         (''opt_txt_rec'', Tup [inner_padding + inner_width - 75, opt_y + opt_h - 16, 24])])"

definition get_theme :: "theme \<Rightarrow> string \<Rightarrow> theme" where
  "get_theme name rarity =
     (let theme = default_theme ++ name
      in case rarity_colors rarity of
           Some colour \<Rightarrow> theme(''frame_inner'' \<mapsto> Str colour)
         | None \<Rightarrow> theme)"

subsection \<open>The standard library's \<open>textwrap.wrap\<close>\<close>

text \<open>
  \<open>textwrap.wrap(text, width, break_long_words=False)\<close> is not code of the repository;
  it is modelled after \<open>Lib/textwrap.py\<close> of CPython 3.11 with the other options at their
  defaults (tabs expanded, white space replaced and dropped at line ends, breaks after
  hyphens).
\<close>

text \<open>The six characters of \<open>textwrap._whitespace\<close>.\<close>

definition tw_space :: "char \<Rightarrow> bool" where
  "tw_space c \<longleftrightarrow> c \<in> set [CHR 0x09, CHR 0x0A, CHR 0x0B, CHR 0x0C, CHR 0x0D, CHR 0x20]"

text \<open>\<open>str.expandtabs(8)\<close>; \<open>j\<close> is the column, counted in characters.\<close>

fun expandtabs :: "nat \<Rightarrow> string \<Rightarrow> string" where
  "expandtabs j [] = []"
| "expandtabs j (c # cs) =
     (if c = CHR 0x09
      then replicate (8 - j mod 8) (CHR 0x20) @ expandtabs (j + (8 - j mod 8)) cs
      else c # expandtabs (if c = CHR 0x0A \<or> c = CHR 0x0D then 0
                           else if utf8_cont c then j else Suc j) cs)"

definition munge_whitespace :: "string \<Rightarrow> string" where
  "munge_whitespace text = map (\<lambda>c. if tw_space c then CHR 0x20 else c) (expandtabs 0 text)"

text \<open>
  The character classes of \<open>wordsep_re\<close>: \<open>\w\<close>, \<open>\d\<close>, \<open>letter = [^\d\W]\<close> and
  \<open>word_punct = [\w!"'&.,?]\<close>, on ASCII.
\<close>

definition re_digit :: "char \<Rightarrow> bool" where
  "re_digit c \<longleftrightarrow> c \<in> set ''0123456789''"

definition re_word :: "char \<Rightarrow> bool" where
  "re_word c \<longleftrightarrow>
     c \<in> set ''abcdefghijklmnopqrstuvwxyzABCDEFGHIJKLMNOPQRSTUVWXYZ0123456789_''"

definition re_letter :: "char \<Rightarrow> bool" where
  "re_letter c \<longleftrightarrow> re_word c \<and> \<not> re_digit c"

definition re_word_punct :: "char \<Rightarrow> bool" where
  "re_word_punct c \<longleftrightarrow> re_word c \<or> c \<in> set [CHR ''!'', CHR 0x22, CHR 0x27, CHR ''&'', CHR ''.'', CHR '','', CHR ''?'']"

text \<open>
  The look-arounds of \<open>wordsep_re\<close>. \<open>pre\<close> is the text before the position, reversed;
  \<open>post\<close> is the text after it.

  \<open>hyphen_break pre post\<close>, for a hyphen between \<open>pre\<close> and \<open>post\<close>:
  \<open>(?<=letter{2}-) | (?<=letter-letter-)\<close> behind, \<open>(?=letter -? letter)\<close> ahead.
\<close>

definition hyphen_break :: "string \<Rightarrow> string \<Rightarrow> bool" where
  "hyphen_break pre post \<longleftrightarrow>
     ((case pre of a # b # _ \<Rightarrow> re_letter a \<and> re_letter b | _ \<Rightarrow> False)
      \<or> (case pre of a # h # b # _ \<Rightarrow> re_letter a \<and> h = CHR ''-'' \<and> re_letter b | _ \<Rightarrow> False))
     \<and> (case post of
          a # b # r \<Rightarrow>
            re_letter a \<and> (re_letter b \<or> (b = CHR ''-'' \<and> (case r of c # _ \<Rightarrow> re_letter c | [] \<Rightarrow> False)))
        | _ \<Rightarrow> False)"

text \<open>\<open>(?=-{2,}\w)\<close>: at least two hyphens, then a word character.\<close>

definition emdash_ahead :: "string \<Rightarrow> bool" where
  "emdash_ahead post \<longleftrightarrow>
     2 \<le> length (takeWhile (\<lambda>c. c = CHR ''-'') post)
     \<and> (case dropWhile (\<lambda>c. c = CHR ''-'') post of c # _ \<Rightarrow> re_word c | [] \<Rightarrow> False)"

text \<open>\<open>(?<=word_punct)\<close>.\<close>

definition punct_behind :: "string \<Rightarrow> bool" where
  "punct_behind pre \<longleftrightarrow> (case pre of c # _ \<Rightarrow> re_word_punct c | [] \<Rightarrow> False)"

text \<open>
  The third alternative of \<open>wordsep_re\<close>, a word: \<open>[^ws]+?\<close> followed by a hyphen where
  a hyphenated word breaks, or by the end of the word, or by an em-dash. The match is
  lazy, so it ends at the first position where one of the three holds. \<open>acc\<close> is the
  word matched so far (not empty), reversed; the result is the word and the rest.
\<close>

fun scan_word :: "string \<Rightarrow> string \<Rightarrow> string \<Rightarrow> string \<times> string" where
  "scan_word pre acc [] = (rev acc, [])"
| "scan_word pre acc (c # cs) =
     (if c = CHR ''-'' \<and> hyphen_break pre cs then (rev (c # acc), cs)
      else if tw_space c then (rev acc, c # cs)
      else if punct_behind pre \<and> emdash_ahead (c # cs) then (rev acc, c # cs)
      else scan_word (c # pre) (c # acc) cs)"

lemma scan_word_length: "scan_word pre acc cs = (w, r) \<Longrightarrow> length r \<le> length cs"
  by (induction cs arbitrary: pre acc) (force split: if_splits intro: le_SucI)+

text \<open>
  \<open>wordsep_re.split\<close> with the empty strings removed: the chunks are the successive
  matches, a run of white space, an em-dash between words, or a word.
\<close>

function split_from :: "string \<Rightarrow> string \<Rightarrow> string list" where
  "split_from pre [] = []"
| "split_from pre (c # cs) =
     (if tw_space c
      then takeWhile tw_space (c # cs)
           # split_from (rev (takeWhile tw_space (c # cs)) @ pre) (dropWhile tw_space (c # cs))
      else if punct_behind pre \<and> emdash_ahead (c # cs)
      then takeWhile (\<lambda>c. c = CHR ''-'') (c # cs)
           # split_from (rev (takeWhile (\<lambda>c. c = CHR ''-'') (c # cs)) @ pre)
                        (dropWhile (\<lambda>c. c = CHR ''-'') (c # cs))
      else fst (scan_word (c # pre) [c] cs)
           # split_from (rev (fst (scan_word (c # pre) [c] cs)) @ pre)
                        (snd (scan_word (c # pre) [c] cs)))"
  by pat_completeness auto
termination
proof (relation "measure (\<lambda>(pre, rest). length rest)", goal_cases)
  case 1
  show ?case by simp
next
  case (2 pre c cs)
  then show ?case by (simp add: length_dropWhile_le less_Suc_eq_le)
next
  case (3 pre c cs)
  then have "c = CHR ''-''" by (auto simp: emdash_ahead_def split: if_splits)
  then show ?case by (simp add: length_dropWhile_le less_Suc_eq_le)
next
  case (4 pre c cs)
  obtain w r where "scan_word (c # pre) [c] cs = (w, r)" by force
  then show ?case using scan_word_length by fastforce
qed

declare split_from.simps [simp del]

definition split_chunks :: "string \<Rightarrow> string list" where
  "split_chunks text = split_from [] (munge_whitespace text)"

text \<open>
  One round of the outer loop of \<open>_wrap_chunks\<close>: a white-space chunk at the start of a
  line after the first is dropped, chunks are taken while they fit, a chunk longer than
  the width goes on a line of its own (\<open>_handle_long_word\<close> without
  \<open>break_long_words\<close>), and a white-space chunk at the end of the line is dropped.
  The result is the line's chunks and the chunks left.
\<close>

fun fill_line :: "nat \<Rightarrow> nat \<Rightarrow> string list \<Rightarrow> string list \<Rightarrow> string list \<times> string list" where
  "fill_line width cur_len cur_line [] = (cur_line, [])"
| "fill_line width cur_len cur_line (c # chunks) =
     (if cur_len + py_len c \<le> width
      then fill_line width (cur_len + py_len c) (cur_line @ [c]) chunks
      else (cur_line, c # chunks))"

definition take_line :: "nat \<Rightarrow> bool \<Rightarrow> string list \<Rightarrow> string list \<times> string list" where
  "take_line width have_lines chunks =
     (let chunks1 = (if py_strip (hd chunks) = [] \<and> have_lines then tl chunks else chunks);
          (cur_line, chunks2) = fill_line width 0 [] chunks1;
          (cur_line, chunks3) =
             (if chunks2 \<noteq> [] \<and> width < py_len (hd chunks2) \<and> cur_line = []
              then ([hd chunks2], tl chunks2) else (cur_line, chunks2));
          cur_line = (if cur_line \<noteq> [] \<and> py_strip (last cur_line) = []
                      then butlast cur_line else cur_line)
      in (cur_line, chunks3))"

lemma fill_line_length:
  "fill_line width n cur chunks = (l, r) \<Longrightarrow> length r \<le> length chunks"
  by (induction chunks arbitrary: n cur) (force split: if_splits intro: le_SucI)+

lemma fill_line_first:
  "fill_line width 0 [] (c # chunks) = (l, r) \<Longrightarrow> length r = Suc (length chunks) \<Longrightarrow>
   l = [] \<and> r = c # chunks \<and> width < py_len c"
  by (auto split: if_splits dest: fill_line_length)

lemma take_line_length:
  assumes "chunks \<noteq> []" "take_line width have_lines chunks = (l, r)"
  shows "length r < length chunks"
proof -
  define chunks1 where
    "chunks1 = (if py_strip (hd chunks) = [] \<and> have_lines then tl chunks else chunks)"
  obtain l2 r2 where f: "fill_line width 0 [] chunks1 = (l2, r2)" by force
  have r: "r = (if r2 \<noteq> [] \<and> width < py_len (hd r2) \<and> l2 = [] then tl r2 else r2)"
    using assms(2) by (auto simp add: take_line_def Let_def chunks1_def [symmetric] f split: if_splits)
  have le: "length r \<le> length r2" by (simp add: r)
  have le2: "length r2 \<le> length chunks1" using fill_line_length [OF f] .
  show ?thesis
  proof (cases "py_strip (hd chunks) = [] \<and> have_lines")
    case True
    then have "length chunks1 < length chunks" using assms(1) by (simp add: chunks1_def)
    with le le2 show ?thesis by simp
  next
    case False
    obtain c cs where ch: "chunks = c # cs" using assms(1) by (cases chunks) auto
    have c1: "chunks1 = c # cs" using False by (simp add: chunks1_def ch)
    show ?thesis
    proof (cases "length r2 = Suc (length cs)")
      case True
      from fill_line_first [OF f [unfolded c1] True] show ?thesis by (simp add: r ch)
    next
      case False
      with le2 have "length r2 \<le> length cs" by (simp add: c1)
      with le show ?thesis by (simp add: ch)
    qed
  qed
qed

function wrap_chunks :: "nat \<Rightarrow> string list \<Rightarrow> string list \<Rightarrow> string list" where
  "wrap_chunks width lines chunks =
     (if chunks = [] then lines
      else let (cur_line, rest) = take_line width (lines \<noteq> []) chunks
           in wrap_chunks width (if cur_line \<noteq> [] then lines @ [concat cur_line] else lines) rest)"
  by pat_completeness auto
termination
proof (relation "measure (\<lambda>(width, lines, chunks). length chunks)", goal_cases)
  case 1
  show ?case by simp
next
  case (2 width lines chunks x xa y)
  then show ?case using take_line_length [of chunks width "lines \<noteq> []" xa y] by simp
qed

declare wrap_chunks.simps [simp del]

text \<open>\<open>_wrap_chunks\<close> raises \<open>ValueError\<close> when the width is not positive.\<close>

definition textwrap_wrap :: "string \<Rightarrow> int \<Rightarrow> error + string list" where
  "textwrap_wrap text width =
     (if width \<le> 0 then Inl ValueError
      else Inr (wrap_chunks (nat width) [] (split_chunks text)))"

subsection \<open>Text wrapping: \<open>wrap_svg_text\<close>\<close>

text \<open>The text argument is a string or a list of strings, each of which gets a line end.\<close>

datatype text_arg = TStr string | TList "string list"

definition text_of :: "text_arg \<Rightarrow> string" where
  "text_of text = (case text of TStr s \<Rightarrow> s | TList els \<Rightarrow> concat (map (\<lambda>el. el @ [CHR 0x0A]) els))"

text \<open>\<open>s.replace(c, r)\<close> for a single character \<open>c\<close>, and the three replacements.\<close>

definition replace_char :: "char \<Rightarrow> string \<Rightarrow> string \<Rightarrow> string" where
  "replace_char c r s = concat (map (\<lambda>d. if d = c then r else [d]) s)"

definition xml_escape :: "string \<Rightarrow> string" where
  "xml_escape text =
     replace_char (CHR ''>'') ''&gt;''
       (replace_char (CHR ''<'') ''&lt;'' (replace_char (CHR ''&'') ''&amp;'' text))"

text \<open>\<open>text.split("\n")\<close>: never empty.\<close>

fun split_nl :: "string \<Rightarrow> string list" where
  "split_nl [] = [[]]"
| "split_nl (c # cs) =
     (if c = CHR 0x0A then [] # split_nl cs
      else (case split_nl cs of [] \<Rightarrow> [[c]] | p # ps \<Rightarrow> (c # p) # ps))"

text \<open>
  The first loop: a blank paragraph gives one empty line, any other paragraph the lines
  of \<open>textwrap.wrap\<close>.
\<close>

fun para_loop :: "int \<Rightarrow> string list \<Rightarrow> string list \<Rightarrow> error + string list" where
  "para_loop width_chars [] lines = Inr lines"
| "para_loop width_chars (para # paras) lines =
     (if py_strip para = [] then para_loop width_chars paras (lines @ [[]])
      else and_then (textwrap_wrap para width_chars)
             (\<lambda>wrapped. para_loop width_chars paras (lines @ wrapped)))"

definition wrap_lines :: "text_arg \<Rightarrow> int \<Rightarrow> error + string list" where
  "wrap_lines text width_chars = para_loop width_chars (split_nl (xml_escape (text_of text))) []"

text \<open>
  The second loop: each line becomes a \<open>tspan\<close> with the current \<open>dy\<close>; after a line
  \<open>dy\<close> is the line height, and twice that after an empty line.
\<close>

fun tspan_entries :: "int \<Rightarrow> int \<Rightarrow> string list \<Rightarrow> (int \<times> string) list" where
  "tspan_entries line_height y [] = []"
| "tspan_entries line_height y (t # lines) =
     (y, t) # tspan_entries line_height
                (if t = [] then line_height + line_height else line_height) lines"

definition tspan :: "int \<Rightarrow> int \<times> string \<Rightarrow> string" where
  \<open>tspan x e = ''<tspan x="'' @ str_int x @ ''" dy="'' @ str_int (fst e) @ ''">'' @ snd e @ ''</tspan>''\<close>

definition wrap_svg_text :: "text_arg \<Rightarrow> int \<Rightarrow> int \<Rightarrow> int \<Rightarrow> error + string" where
  "wrap_svg_text text width_chars line_height x =
     and_then (wrap_lines text width_chars)
       (\<lambda>lines. Inr (py_join (CHR 0x0A # ''    '')
                              (map (tspan x) (tspan_entries line_height 0 lines))))"

subsection \<open>The regions of a card\<close>

definition build_frame_str :: "theme \<Rightarrow> error + string" where
  \<open>build_frame_str th =
     and_then (unpack2 th ''card_sz'') (\<lambda>(card_w, card_h).
     and_then (unpack4 th ''inner_rec'') (\<lambda>(x, y, w, h).
     and_then (fstr th [Lit ''<rect x="0" y="0" width="'', Num card_w, Lit ''" height="'', Num card_h,
                        Lit ''" fill="'', Key ''frame_bg'', Lit ''" rx="18" ry="18"/>'']) (\<lambda>s1.
     and_then (fstr th [Lit ''<rect x="'', Num x, Lit ''" y="'', Num y, Lit ''" width="'', Num w,
                        Lit ''" height="'', Num h, Lit ''" fill="'', Key ''frame_inner'',
                        Lit ''" rx="14" ry="14" stroke="'', Key ''frame_border'',
                        Lit ''" stroke-width="2"/>'']) (\<lambda>s2.
     Inr (s1 @ s2)))))\<close>

definition build_title_str :: "theme \<Rightarrow> string \<Rightarrow> string \<Rightarrow> error + string" where
  \<open>build_title_str th name rarity =
     and_then (unpack4 th ''title_rec'') (\<lambda>(x, y, w, h).
     and_then (fstr th [Lit ''<rect x="'', Num x, Lit ''" y="'', Num y, Lit ''" width="'', Num w,
                        Lit ''" height="'', Num h, Lit ''" rx="8" ry="8" fill="'', Key ''title_bg'',
                        Lit ''" stroke="'', Key ''frame_border'', Lit ''" stroke-width="2"/>'']) (\<lambda>s1.
     and_then (unpack3 th ''title_txt_rec'') (\<lambda>(x, y, fs).
     and_then (fstr th [Lit ''<text x="'', Num x, Lit ''" y="'', Num y, Lit ''" font-family="'',
                        Key ''font_serif'', Lit ''" font-size="'', Num fs,
                        Lit ''" font-weight="700" fill="'', Key ''title_fg'', Lit ''">'', Lit name,
                        Lit ''</text>'']) (\<lambda>s2.
     and_then (unpack3 th ''title_rarity_rec'') (\<lambda>(x, y, fs).
     and_then (fstr th [Lit ''<text x="'', Num x, Lit ''" y="'', Num y, Lit ''" font-family="'',
                        Key ''font_serif'', Lit ''" font-size="'', Num fs,
                        Lit ''" text-anchor="end" fill="'', Key ''title_fg'', Lit ''">'', Lit rarity,
                        Lit ''</text>'']) (\<lambda>s3.
     Inr (s1 @ s2 @ s3)))))))\<close>

text \<open>
  \<open>base64.b64encode\<close>, and \<open>data_uri_for_image\<close>. \<open>files\<close> gives the bytes of the file
  at a path, or \<open>None\<close> when the path does not exist.
\<close>

definition b64_char :: "nat \<Rightarrow> char" where
  "b64_char n = ''ABCDEFGHIJKLMNOPQRSTUVWXYZabcdefghijklmnopqrstuvwxyz0123456789+/'' ! n"

fun b64encode :: "string \<Rightarrow> string" where
  "b64encode [] = []"
| "b64encode [a] =
     (let x = (of_char a :: nat)
      in [b64_char (x div 4), b64_char (x mod 4 * 16), CHR ''='', CHR ''=''])"
| "b64encode [a, b] =
     (let x = (of_char a :: nat); y = (of_char b :: nat)
      in [b64_char (x div 4), b64_char (x mod 4 * 16 + y div 16), b64_char (y mod 16 * 4),
          CHR ''=''])"
| "b64encode (a # b # c # rest) =
     (let x = (of_char a :: nat); y = (of_char b :: nat); z = (of_char c :: nat)
      in [b64_char (x div 4), b64_char (x mod 4 * 16 + y div 16),
          b64_char (y mod 16 * 4 + z div 64), b64_char (z mod 64)] @ b64encode rest)"

definition data_uri_for_image :: "(string \<rightharpoonup> string) \<Rightarrow> string \<Rightarrow> string \<Rightarrow> string option" where
  "data_uri_for_image files path mime =
     (case files path of
        None \<Rightarrow> None
      | Some data \<Rightarrow> Some (''data:'' @ mime @ '';base64,'' @ b64encode data))"

text \<open>\<open>s.endswith(suffix)\<close>.\<close>

definition endswith :: "string \<Rightarrow> string \<Rightarrow> bool" where
  "endswith s suffix \<longleftrightarrow> length suffix \<le> length s \<and> drop (length s - length suffix) s = suffix"

definition build_art_str ::
  "(string \<rightharpoonup> string) \<Rightarrow> theme \<Rightarrow> string option \<Rightarrow> error + (string \<times> string)" where
  \<open>build_art_str files th art_path =
     and_then (unpack4 th ''art_rec'') (\<lambda>(x, y, w, h).
     and_then (fstr th [Lit ''<clipPath id="artClip"><rect x="'', Num x, Lit ''" y="'', Num y,
                        Lit ''" rx="10" ry="10" width="'', Num w, Lit ''" height="'', Num h,
                        Lit ''" /></clipPath>'']) (\<lambda>clipping_art.
     and_then (fstr th [Lit ''<rect x="'', Num x, Lit ''" y="'', Num y, Lit ''" width="'', Num w,
                        Lit ''" height="'', Num h, Lit ''" rx="10" ry="10" fill="'', Key ''art_bg'',
                        Lit ''" stroke="'', Key ''frame_border'', Lit ''" stroke-width="2"/>'']) (\<lambda>art_img.
     and_then
       (case art_path of
          None \<Rightarrow> Inr art_img
        | Some p \<Rightarrow>
            if p = [] then Inr art_img
            else
              let ap = py_lower p;
                  mime = (if endswith ap ''.jpg'' \<or> endswith ap ''.jpeg''
                          then ''image/jpeg'' else ''image/png'')
              in case data_uri_for_image files p mime of
                   None \<Rightarrow> Inr art_img
                 | Some uri \<Rightarrow>
                     fstr th [Lit ''<image href="'', Lit uri, Lit ''" x="'', Num x, Lit ''" y="'', Num y,
                              Lit ''" width="'', Num w, Lit ''" height="'', Num h,
                              Lit ''" preserveAspectRatio="xMidYMid slice" clip-path="url(#artClip)" />''])
       (\<lambda>art_img.
     and_then (fstr th [Lit ''<rect x="'', Num x, Lit ''" y="'', Num y, Lit ''" width="'', Num w,
                        Lit ''" height="'', Num h,
                        Lit ''" rx="10" ry="10" fill-opacity="0" stroke="'', Key ''frame_border'',
                        Lit ''" stroke-width="2"/>'']) (\<lambda>border.
     Inr (clipping_art, art_img @ border))))))\<close>

definition build_type_str :: "theme \<Rightarrow> string \<Rightarrow> error + string" where
  \<open>build_type_str th type_line =
     and_then (unpack4 th ''type_rec'') (\<lambda>(x, y, w, h).
     and_then (fstr th [Lit ''<rect x="'', Num x, Lit ''" y="'', Num y, Lit ''" width="'', Num w,
                        Lit ''" height="'', Num h, Lit ''" rx="6" ry="6" fill="'', Key ''type_bg'',
                        Lit ''" stroke="'', Key ''frame_border'', Lit ''" stroke-width="2"/>'']) (\<lambda>s1.
     and_then (unpack3 th ''type_txt_rec'') (\<lambda>(x, y, fs).
     and_then (fstr th [Lit ''<text x="'', Num x, Lit ''" y="'', Num y, Lit ''" font-family="'',
                        Key ''font_sans'', Lit ''" font-size="'', Num fs,
                        Lit ''" font-weight="600" fill="'', Key ''type_fg'', Lit ''">'', Lit type_line,
                        Lit ''</text>'']) (\<lambda>s2.
     Inr (s1 @ s2)))))\<close>

text \<open>The curly quotation marks U+201C and U+201D, in UTF-8.\<close>

definition ldquo :: string where
  "ldquo = [CHR 0xE2, CHR 0x80, CHR 0x9C]"

definition rdquo :: string where
  "rdquo = [CHR 0xE2, CHR 0x80, CHR 0x9D]"

definition build_rules_str :: "theme \<Rightarrow> text_arg \<Rightarrow> string \<Rightarrow> error + string" where
  \<open>build_rules_str th rules flavor =
     and_then (unpack4 th ''rules_rec'') (\<lambda>(x, y, w, h).
     and_then (fstr th [Lit ''<rect x="'', Num x, Lit ''" y="'', Num y, Lit ''" width="'', Num w,
                        Lit ''" height="'', Num h, Lit ''" rx="10" ry="10" fill="'', Key ''rules_bg'',
                        Lit ''" stroke="'', Key ''frame_border'', Lit ''" stroke-width="2"/>'']) (\<lambda>s1.
     and_then (unpack3 th ''rules_txt_rec'') (\<lambda>(x, y, fs).
     and_then (wrap_svg_text rules 60 fs x) (\<lambda>rules_lines.
     and_then (fstr th [Lit ''<text x="'', Num x, Lit ''" y="'', Num y, Lit ''" font-family="'',
                        Key ''font_serif'', Lit ''" font-size="'', Num fs, Lit ''" fill="'',
                        Key ''rules_fg'', Lit ''">'', Lit rules_lines, Lit ''</text>'']) (\<lambda>s2.
     and_then (unpack3 th ''flavor_txt_rec'') (\<lambda>(x, y, fs).
     and_then (if flavor \<noteq> [] then wrap_svg_text (TStr (ldquo @ flavor @ rdquo)) 60 fs x
               else Inr []) (\<lambda>flavor_lines.
     and_then (fstr th [Lit ''<text x="'', Num x, Lit ''" y="'', Num y, Lit ''" font-family="'',
                        Key ''font_serif'', Lit ''" font-size="'', Num fs,
                        Lit ''" font-style="italic" fill="'', Key ''flavor_fg'', Lit ''">'',
                        Lit flavor_lines, Lit ''</text>'']) (\<lambda>s3.
     Inr (s1 @ s2 @ s3)))))))))\<close>

text \<open>
  \<open>build_optional_str\<close>. \<open>badge\<close> is the body of \<open>if el:\<close>, the two f-strings of one
  badge; a field counts when it is there and not empty.
\<close>

definition badge ::
  "theme \<Rightarrow> int \<Rightarrow> int \<Rightarrow> int \<Rightarrow> int \<Rightarrow> int \<Rightarrow> int \<Rightarrow> int \<Rightarrow> string \<Rightarrow> error + string" where
  \<open>badge th x y w h tx ty fs el =
     and_then (fstr th [Lit ''<g><rect x="'', Num (x - w), Lit ''" y="'', Num y, Lit ''" width="'', Num w,
                        Lit ''" height="'', Num h, Lit ''" rx="8" ry="8" fill="'', Key ''pt_bg'',
                        Lit ''" stroke="'', Key ''frame_border'', Lit ''" stroke-width="2"/>'']) (\<lambda>s1.
     and_then (fstr th [Lit ''<text x="'', Num tx, Lit ''" y="'', Num ty, Lit ''" font-family="'',
                        Key ''font_serif'', Lit ''" font-size="'', Num fs,
                        Lit ''" font-weight="700" text-anchor="middle" fill="'', Key ''pt_fg'',
                        Lit ''">'', Lit el, Lit ''</text></g>'']) (\<lambda>s2.
     Inr (s1 @ s2)))\<close>

definition truthy :: "string option \<Rightarrow> bool" where
  "truthy el \<longleftrightarrow> (case el of None \<Rightarrow> False | Some s \<Rightarrow> s \<noteq> [])"

fun optional_loop ::
  "theme \<Rightarrow> int \<Rightarrow> int \<Rightarrow> int \<Rightarrow> int \<Rightarrow> int \<Rightarrow> int \<Rightarrow> int \<Rightarrow> string option list \<Rightarrow> string
     \<Rightarrow> error + string" where
  "optional_loop th x y w h tx ty fs [] opt_str = Inr opt_str"
| "optional_loop th x y w h tx ty fs (el # els) opt_str =
     (if truthy el
      then and_then (badge th x y w h tx ty fs (the el))
             (\<lambda>s. optional_loop th (x - (w + 6)) y w h (tx - (w + 6)) ty fs els (opt_str @ s))
      else optional_loop th x y w h tx ty fs els opt_str)"

definition build_optional_str ::
  "theme \<Rightarrow> string option \<Rightarrow> string option \<Rightarrow> string option \<Rightarrow> error + string" where
  "build_optional_str th pt price weight =
     and_then (unpack4 th ''opt_box'') (\<lambda>(x, y, w, h).
     and_then (unpack3 th ''opt_txt_rec'') (\<lambda>(tx, ty, fs).
     optional_loop th x y w h tx ty fs [pt, price, weight] []))"

text \<open>The bullet U+2022, in UTF-8.\<close>

definition bullet :: string where
  "bullet = [CHR 0xE2, CHR 0x80, CHR 0xA2]"

definition build_footer_str ::
  "theme \<Rightarrow> string \<Rightarrow> string \<Rightarrow> string \<Rightarrow> string \<Rightarrow> error + string" where
  \<open>build_footer_str th set_code collector author copyright_str =
     and_then (unpack3 th ''footer_txt_rec_l'') (\<lambda>(x, y, fs).
     and_then (fstr th [Lit ''<g><text x="'', Num x, Lit ''" y="'', Num y, Lit ''" font-family="'',
                        Key ''font_sans'', Lit ''" font-size="'', Num fs, Lit ''" fill="'',
                        Key ''footer_fg'', Lit ''">'', Lit set_code, Lit '' '', Lit bullet, Lit '' '',
                        Lit collector, Lit '' '', Lit bullet, Lit '' '', Lit author,
                        Lit ''</text>'']) (\<lambda>s1.
     and_then (unpack3 th ''footer_txt_rec_r'') (\<lambda>(x, y, fs).
     and_then (fstr th [Lit ''<text x="'', Num x, Lit ''" y="'', Num y, Lit ''" font-family="'',
                        Key ''font_sans'', Lit ''" font-size="'', Num fs,
                        Lit ''" text-anchor="end" fill="'', Key ''footer_fg'', Lit ''">'',
                        Lit copyright_str, Lit ''</text></g>'']) (\<lambda>s2.
     Inr (s1 @ s2)))))\<close>

subsection \<open>The card document: \<open>build_svg\<close>\<close>

text \<open>
  A card is a JSON object; each field is there or not. The model reads strings where the
  source formats whatever value the field holds.
\<close>

record card =
  c_name :: "string option"
  c_rarity :: "string option"
  c_theme :: "theme option"
  c_art_path :: "string option"
  c_type_line :: "string option"
  c_rules_text :: "text_arg option"
  c_flavor_text :: "string option"
  c_pt :: "string option"
  c_price :: "string option"
  c_weight :: "string option"
  c_set_code :: "string option"
  c_collector :: "string option"
  c_author :: "string option"
  c_copyright :: "string option"

text \<open>\<open>card.get(key, default)\<close>.\<close>

definition get_or :: "'a option \<Rightarrow> 'a \<Rightarrow> 'a" where
  "get_or field dflt = (case field of None \<Rightarrow> dflt | Some v \<Rightarrow> v)"

text \<open>The em-dash U+2014 and the copyright sign U+00A9, in UTF-8.\<close>

definition emdash :: string where
  "emdash = [CHR 0xE2, CHR 0x80, CHR 0x94]"

definition copyright_sign :: string where
  "copyright_sign = [CHR 0xC2, CHR 0xA9]"

text \<open>The strings that \<open>build_svg\<close> substitutes into \<open>SVG_TEMPLATE\<close>.\<close>

record svg_parts =
  p_frame_str :: string
  p_title_str :: string
  p_clipping_art :: string
  p_art_img :: string
  p_type_str :: string
  p_rules_str :: string
  p_opt_str :: string
  p_footer_str :: string
  p_card_w :: int
  p_card_h :: int

definition build_parts :: "(string \<rightharpoonup> string) \<Rightarrow> card \<Rightarrow> error + svg_parts" where
  "build_parts files c =
     (let theme = get_theme (get_or (c_theme c) Map.empty) (get_or (c_rarity c) ''Common'')
      in
     and_then (build_frame_str theme) (\<lambda>frame.
     and_then (build_title_str theme (get_or (c_name c) ''Unnamed Item'')
                               (get_or (c_rarity c) ''Common'')) (\<lambda>title.
     and_then (build_art_str files theme (c_art_path c)) (\<lambda>(clipping, art).
     and_then (build_type_str theme
                 (get_or (c_type_line c) (''Item '' @ emdash @ '' Wondrous''))) (\<lambda>type_s.
     and_then (build_rules_str theme (get_or (c_rules_text c) (TStr emdash))
                               (py_strip (get_or (c_flavor_text c) []))) (\<lambda>rules.
     and_then (build_optional_str theme (c_pt c) (c_price c) (c_weight c)) (\<lambda>opt.
     and_then (build_footer_str theme (get_or (c_set_code c) ''DND'')
                                (get_or (c_collector c) ''001/001'')
                                (get_or (c_author c) [])
                                (get_or (c_copyright c) (copyright_sign @ '' 2025''))) (\<lambda>footer.
     and_then (unpack2 theme ''card_sz'') (\<lambda>(w, h).
     Inr \<lparr>p_frame_str = frame, p_title_str = title, p_clipping_art = clipping, p_art_img = art,
          p_type_str = type_s, p_rules_str = rules, p_opt_str = opt, p_footer_str = footer,
          p_card_w = w, p_card_h = h\<rparr>)))))))))"

text \<open>\<open>Template(SVG_TEMPLATE).substitute\<close>: the template with each placeholder filled in.\<close>

definition substitute :: "svg_parts \<Rightarrow> string" where
  \<open>substitute p =
     ''<?xml version="1.0" encoding="UTF-8" standalone="no"?>'' @ [CHR 0x0A] @
     ''<svg width="'' @ str_int (p_card_w p) @ ''px" height="'' @ str_int (p_card_h p)
       @ ''px" viewBox="0 0 '' @ str_int (p_card_w p) @ '' '' @ str_int (p_card_h p)
       @ ''" xmlns="http://www.w3.org/2000/svg">'' @ [CHR 0x0A] @
     ''  <defs>'' @ [CHR 0x0A] @
     ''    '' @ p_clipping_art p @ [CHR 0x0A] @
     ''  </defs>'' @ [CHR 0x0A] @
     [CHR 0x0A] @
     ''  <!-- frame -->'' @ [CHR 0x0A] @
     ''  '' @ p_frame_str p @ [CHR 0x0A] @
     ''  '' @ [CHR 0x0A] @
     ''  <!-- Title bar -->'' @ [CHR 0x0A] @
     ''  '' @ p_title_str p @ [CHR 0x0A] @
     [CHR 0x0A] @
     ''  <!-- Art -->'' @ [CHR 0x0A] @
     ''  '' @ p_art_img p @ [CHR 0x0A] @
     [CHR 0x0A] @
     ''  <!-- Type line -->'' @ [CHR 0x0A] @
     ''  '' @ p_type_str p @ [CHR 0x0A] @
     [CHR 0x0A] @
     ''  <!-- Rules text box -->'' @ [CHR 0x0A] @
     ''  '' @ p_rules_str p @ [CHR 0x0A] @
     [CHR 0x0A] @
     ''  <!-- Optional -->'' @ [CHR 0x0A] @
     ''  '' @ p_opt_str p @ [CHR 0x0A] @
     [CHR 0x0A] @
     ''  <!-- Footer -->'' @ [CHR 0x0A] @
     ''  '' @ p_footer_str p @ [CHR 0x0A] @
     ''</svg>'' @ [CHR 0x0A]\<close>

text \<open>
  The file name: \<open>re.sub(r"[^a-zA-Z0-9_-]+", "_", name).strip("_")\<close>. \<open>in_run\<close> says that
  the characters just read were replaced.
\<close>

definition name_char :: "char \<Rightarrow> bool" where
  "name_char c \<longleftrightarrow>
     c \<in> set ''abcdefghijklmnopqrstuvwxyzABCDEFGHIJKLMNOPQRSTUVWXYZ0123456789_-''"

fun collapse_runs :: "bool \<Rightarrow> string \<Rightarrow> string" where
  "collapse_runs in_run [] = []"
| "collapse_runs in_run (c # cs) =
     (if name_char c then c # collapse_runs False cs
      else if in_run then collapse_runs True cs
      else CHR ''_'' # collapse_runs True cs)"

definition safe_name :: "string \<Rightarrow> string" where
  "safe_name name =
     rev (dropWhile (\<lambda>c. c = CHR ''_'')
            (rev (dropWhile (\<lambda>c. c = CHR ''_'') (collapse_runs False name))))"

text \<open>
  \<open>build_svg\<close>: the stem of the file written into the output directory, and its text.
\<close>

definition build_svg :: "(string \<rightharpoonup> string) \<Rightarrow> card \<Rightarrow> error + (string \<times> string)" where
  "build_svg files c =
     and_then (build_parts files c)
       (\<lambda>parts. Inr (safe_name (get_or (c_name c) ''card''), substitute parts))"

subsection \<open>Notions used to state the properties\<close>

text \<open>
  Rectangles are \<open>(x, y, width, height)\<close>. Two rectangles overlap when their interiors
  meet; \<open>rect_inside r s\<close> says that \<open>r\<close> lies within \<open>s\<close>.
\<close>

type_synonym rect = "int \<times> int \<times> int \<times> int"

definition rect_overlap :: "rect \<Rightarrow> rect \<Rightarrow> bool" where
  "rect_overlap r s =
     (case r of (x1, y1, w1, h1) \<Rightarrow> case s of (x2, y2, w2, h2) \<Rightarrow>
        x1 < x2 + w2 \<and> x2 < x1 + w1 \<and> y1 < y2 + h2 \<and> y2 < y1 + h1)"

definition rect_inside :: "rect \<Rightarrow> rect \<Rightarrow> bool" where
  "rect_inside r s =
     (case r of (x1, y1, w1, h1) \<Rightarrow> case s of (x2, y2, w2, h2) \<Rightarrow>
        x2 \<le> x1 \<and> x1 + w1 \<le> x2 + w2 \<and> y2 \<le> y1 \<and> y1 + h1 \<le> y2 + h2)"

fun disjoint_all :: "rect list \<Rightarrow> bool" where
  "disjoint_all [] = True"
| "disjoint_all (r # rs) = (list_all (\<lambda>s. \<not> rect_overlap r s) rs \<and> disjoint_all rs)"

text \<open>
  The rectangle that \<open>build_optional_str\<close> draws for the \<open>i\<close>-th badge: the \<open>x\<close> of
  \<open>opt_box\<close> is the right edge of the first badge (the \<open>rect\<close> starts at \<open>x - w\<close>), and
  each badge moves \<open>x\<close> left by \<open>w + 6\<close>.
\<close>

definition badge_rect :: "rect \<Rightarrow> nat \<Rightarrow> rect" where
  "badge_rect box i = (case box of (x, y, w, h) \<Rightarrow> (x - int i * (w + 6) - w, y, w, h))"

text \<open>The text an f-string piece stands for, when its key is in the theme.\<close>

fun piece_text :: "theme \<Rightarrow> piece \<Rightarrow> string" where
  "piece_text th (Lit s) = s"
| "piece_text th (Num i) = str_int i"
| "piece_text th (Key k) = (case th k of Some v \<Rightarrow> fmt_tval v | None \<Rightarrow> [])"

text \<open>
  Text of ASCII characters, where the model of the string methods is exact. A plain
  word: not empty, with no white space and no hyphen. Text without the four separator
  characters \<open>0x1c\<close> to \<open>0x1f\<close>, which \<open>str.strip\<close> takes for white space and
  \<open>textwrap\<close> does not. Plain text: ASCII, without these separators and without the
  three characters that \<open>wrap_svg_text\<close> escapes.
\<close>

definition is_ascii :: "string \<Rightarrow> bool" where
  "is_ascii s \<longleftrightarrow> (\<forall>c \<in> set s. (of_char c :: nat) < 128)"

definition plain_word :: "string \<Rightarrow> bool" where
  "plain_word s \<longleftrightarrow> s \<noteq> [] \<and> (\<forall>c \<in> set s. \<not> py_isspace c \<and> c \<noteq> CHR ''-'')"

definition no_separators :: "string \<Rightarrow> bool" where
  "no_separators s \<longleftrightarrow> (\<forall>c \<in> set s. c \<notin> set [CHR 0x1C, CHR 0x1D, CHR 0x1E, CHR 0x1F])"

definition plain_text :: "string \<Rightarrow> bool" where
  "plain_text s \<longleftrightarrow> is_ascii s \<and> no_separators s \<and> (\<forall>c \<in> set s. c \<notin> set ''&<>'')"

text \<open>
  Notions of the proofs about \<open>textwrap.wrap\<close>. Text whose only white space is the space
  character; a list of chunks in which no two neighbours are both blank; a line made of
  whole chunks, the last of them not blank, that fits the width or is a single chunk; the
  lines of one paragraph; and a line that wraps to itself.
\<close>

definition clean :: "string \<Rightarrow> bool" where
  "clean s \<longleftrightarrow> (\<forall>c \<in> set s. c = CHR 0x20 \<or> \<not> py_isspace c)"

fun alt :: "string list \<Rightarrow> bool" where
  "alt [] = True"
| "alt [c] = True"
| "alt (c # d # cs) = (\<not> (py_strip c = [] \<and> py_strip d = []) \<and> alt (d # cs))"

definition good_line :: "nat \<Rightarrow> string list \<Rightarrow> string \<Rightarrow> bool" where
  "good_line w chunks l \<longleftrightarrow>
     (\<exists>cur. cur \<noteq> [] \<and> set cur \<subseteq> set chunks \<and> l = concat cur \<and> py_strip (last cur) \<noteq> []
          \<and> (sum_list (map py_len cur) \<le> w \<or> (\<exists>c. cur = [c])))"

definition wrap_para :: "int \<Rightarrow> string \<Rightarrow> string list" where
  "wrap_para w para =
     (if py_strip para = [] then [[]] else wrap_chunks (nat w) [] (split_chunks para))"

definition settled :: "nat \<Rightarrow> string \<Rightarrow> bool" where
  "settled w l \<longleftrightarrow>
     clean l \<and> l \<noteq> [] \<and> \<not> py_isspace (last l) \<and> (py_len l \<le> w \<or> split_from [] l = [l])"

section \<open>Properties of the sheet packer\<close>

lemma length_py_range: "length (py_range n) = nat n"
  by (simp add: py_range_def)

lemma length_layout_positions:
  "length (layout_positions sw sh cw ch cols rows m g) = nat rows * nat cols"
  by (simp add: layout_positions_def Let_def length_concat comp_def py_range_def sum_list_triv)

lemma rasterize_all_ok:
  "\<forall>x \<in> set xs. export_ok (snd x) \<Longrightarrow>
   rasterize_all export_ok xs pngs w = (Inr (pngs @ xs), w\<lparr>rasterized := rasterized w @ xs\<rparr>)"
  by (induction xs arbitrary: pngs w) auto

lemma page_loop_closed:
  "0 < pp \<Longrightarrow>
   page_loop i pp pngs positions add_crop cw ch =
     map (\<lambda>k. make_page (take pp (drop (i + k * pp) pngs)) positions add_crop cw ch)
         [0..<(length pngs - i + pp - 1) div pp]"
proof (induction i pp pngs positions add_crop cw ch rule: page_loop.induct)
  case (1 i pp pngs positions add_crop cw ch)
  show ?case
  proof (cases "length pngs \<le> i")
    case True
    with 1(2) show ?thesis by (subst page_loop.simps) simp
  next
    case False
    then have lt: "i < length pngs" by simp
    have n: "(length pngs - i + pp - 1) div pp = Suc ((length pngs - (i + pp) + pp - 1) div pp)"
    proof (cases "length pngs - i \<le> pp")
      case True
      then have "length pngs - (i + pp) = 0" by simp
      moreover have "(length pngs - i + pp - 1) div pp = 1"
      proof -
        have "pp \<le> length pngs - i + pp - 1" using lt by simp
        moreover have "length pngs - i + pp - 1 < 2 * pp" using True 1(2) by simp
        ultimately show ?thesis
          by (metis (no_types) One_nat_def div_nat_eqI mult.commute mult_1 mult_2_right numeral_2_eq_2 plus_1_eq_Suc add.commute)
      qed
      ultimately show ?thesis using 1(2) by simp
    next
      case False
      then have "length pngs - i + pp - 1 = (length pngs - (i + pp) + pp - 1) + pp" by simp
      moreover have "(x + pp) div pp = Suc (x div pp)" for x
        using 1(2) div_add_self2 [of pp x] by simp
      ultimately show ?thesis by metis
    qed
    have ih: "page_loop (i + pp) pp pngs positions add_crop cw ch =
       map (\<lambda>k. make_page (take pp (drop (i + pp + k * pp) pngs)) positions add_crop cw ch)
         [0..<(length pngs - (i + pp) + pp - 1) div pp]"
      using 1(1) 1(2) False by simp
    have "page_loop i pp pngs positions add_crop cw ch =
            make_page (take pp (drop i pngs)) positions add_crop cw ch
            # page_loop (i + pp) pp pngs positions add_crop cw ch"
      using False 1(2) by (subst page_loop.simps) simp
    also have "\<dots> = map (\<lambda>k. make_page (take pp (drop (i + k * pp) pngs)) positions add_crop cw ch)
         [0..<Suc ((length pngs - (i + pp) + pp - 1) div pp)]"
      unfolding ih map_upt_Suc by (simp add: add.assoc)
    finally show ?thesis unfolding n .
  qed
qed

lemma ceil_div_bounds:
  fixes n pp :: nat
  assumes "0 < pp" "0 < n"
  shows "0 < (n + pp - 1) div pp"
    and "((n + pp - 1) div pp - 1) * pp < n"
    and "n \<le> (n + pp - 1) div pp * pp"
proof -
  let ?m = "n + pp - 1"
  have a: "?m div pp * pp \<le> ?m" by simp
  have b: "?m < pp + ?m div pp * pp" using assms(1) dividend_less_div_times by blast
  have "pp \<le> ?m" using assms by simp
  then show c: "0 < ?m div pp" using assms(1) by (simp add: div_greater_zero_iff)
  have d: "(?m div pp - 1) * pp = ?m div pp * pp - pp" by (simp add: diff_mult_distrib)
  show "(?m div pp - 1) * pp < n" unfolding d using a assms by arith
  show "n \<le> ?m div pp * pp" using b assms by simp
qed

lemma page_loop_concat:
  "0 < pp \<Longrightarrow> pp \<le> length positions \<Longrightarrow>
   concat (map (map fst \<circ> placed) (page_loop i pp pngs positions add_crop cw ch)) = drop i pngs"
proof (induction i pp pngs positions add_crop cw ch rule: page_loop.induct)
  case (1 i pp pngs positions add_crop cw ch)
  show ?case
  proof (cases "length pngs \<le> i")
    case True
    then show ?thesis by (subst page_loop.simps) simp
  next
    case False
    have ih: "concat (map (map fst \<circ> placed) (page_loop (i + pp) pp pngs positions add_crop cw ch))
              = drop (i + pp) pngs"
      using 1(1) [OF _ 1(2) 1(3)] False 1(2) by blast
    have "map fst (zip (take pp (drop i pngs)) positions) = take pp (drop i pngs)"
      using 1(3) by (simp add: map_fst_zip_take min_def)
    then have "concat (map (map fst \<circ> placed) (page_loop i pp pngs positions add_crop cw ch))
          = take pp (drop i pngs) @ drop (i + pp) pngs"
      using False 1(2) by (subst page_loop.simps) (simp add: ih make_page_def)
    also have "\<dots> = drop i pngs"
      by (metis add.commute append_take_drop_id drop_drop)
    finally show ?thesis .
  qed
qed


subsection \<open>Pagination\<close>

text \<open>
  Claim C2. When Inkscape is found and every export succeeds, \<open>make_sheets\<close> on a non-empty
  list of cards with \<open>cols, rows \<ge> 1\<close> rasterizes the cards in order and saves
  \<open>ceil(n / (cols * rows))\<close> pages; every page but the last holds \<open>cols * rows\<close> cards, the
  last one holds the rest, and the pages read in order give the cards in input order.
\<close>

theorem make_sheets_pages:
  assumes ink: "inkscape \<noteq> []"
    and ok: "\<forall>svg \<in> set svg_paths. export_ok svg"
    and ne: "svg_paths \<noteq> []"
    and c: "1 \<le> cols" and r: "1 \<le> rows"
  shows "\<exists>pages.
           make_sheets inkscape export_ok svg_paths dpi orientation cols rows margin_px gutter_px
                       card_w card_h add_crop w
             = (Inr (), w\<lparr>rasterized := rasterized w @ zip [1..<Suc (length svg_paths)] svg_paths,
                          saved_pdf := Some pages\<rparr>)
         \<and> length pages = (length svg_paths + nat (cols * rows) - 1) div nat (cols * rows)
         \<and> (\<forall>k < length pages - 1. length (placed (pages ! k)) = nat (cols * rows))
         \<and> length (placed (last pages))
             = length svg_paths - (length pages - 1) * nat (cols * rows)
         \<and> concat (map (map fst \<circ> placed) pages) = zip [1..<Suc (length svg_paths)] svg_paths"
proof -
  define pp where "pp = nat (cols * rows)"
  define pngs where "pngs = zip [1..<Suc (length svg_paths)] svg_paths"
  define n where "n = length svg_paths"
  define positions where
    "positions = layout_positions (fst (a4_dimensions dpi orientation))
                   (snd (a4_dimensions dpi orientation)) card_w card_h cols rows margin_px gutter_px"
  define pages where "pages = page_loop 0 pp pngs positions add_crop card_w card_h"
  define N where "N = (n + pp - 1) div pp"
  have pos: "0 < cols * rows" using c r by simp
  then have pp0: "0 < pp" by (simp add: pp_def)
  have n0: "0 < n" using ne by (simp add: n_def)
  have lp: "length pngs = n"
    by (simp only: pngs_def n_def length_zip length_upt diff_Suc_1 min.idem)
  have lpos: "length positions = pp"
    using c r by (simp add: positions_def length_layout_positions pp_def nat_mult_distrib mult.commute)
  have okz: "\<forall>x \<in> set pngs. export_ok (snd x)"
    using ok by (auto simp: pngs_def dest: set_zip_rightD)
  have ras: "rasterize_all export_ok pngs [] w = (Inr pngs, w\<lparr>rasterized := rasterized w @ pngs\<rparr>)"
    using rasterize_all_ok [OF okz, of "[]" w] by simp
  have closed: "pages = map (\<lambda>k. make_page (take pp (drop (k * pp) pngs)) positions add_crop card_w card_h) [0..<N]"
    unfolding pages_def N_def using page_loop_closed [OF pp0, of 0 pngs] by (simp add: lp)
  have len: "length pages = N" by (simp add: closed)
  have N0: "0 < N" and lo: "(N - 1) * pp < n" and hi: "n \<le> N * pp"
    unfolding N_def using ceil_div_bounds [OF pp0 n0] by auto
  have pne: "pages \<noteq> []" using len N0 by auto
  have pl: "length (placed (pages ! k)) = min pp (n - k * pp)" if "k < N" for k
    using that by (simp add: closed make_page_def lp lpos min.commute min.left_commute)
  have full: "length (placed (pages ! k)) = pp" if "k < N - 1" for k
  proof -
    have "Suc k \<le> N - 1" using that by simp
    then have "Suc k * pp \<le> (N - 1) * pp" by (rule mult_le_mono1)
    then have "k * pp + pp < n" using lo by simp
    then show ?thesis using pl [of k] that by simp
  qed
  have lst: "length (placed (last pages)) = n - (N - 1) * pp"
  proof -
    have "last pages = pages ! (N - 1)" using pne len by (simp add: last_conv_nth)
    moreover have "n - (N - 1) * pp \<le> pp"
    proof -
      have "N * pp = (N - 1) * pp + pp" using N0 by (cases N) simp_all
      then show ?thesis using hi by simp
    qed
    ultimately show ?thesis using pl [of "N - 1"] N0 by simp
  qed
  have cc: "concat (map (map fst \<circ> placed) pages) = pngs"
    unfolding pages_def using page_loop_concat [OF pp0, of positions 0 pngs] lpos by simp
  have pag: "paginate pngs (cols * rows) positions add_crop card_w card_h = Inr pages"
  proof -
    have "cols * rows \<noteq> 0" and "\<not> cols * rows < 0" using pos by auto
    then show ?thesis unfolding paginate_def pages_def pp_def by (simp only: if_False)
  qed
  have ms: "make_sheets inkscape export_ok svg_paths dpi orientation cols rows margin_px gutter_px
                       card_w card_h add_crop w
             = (Inr (), w\<lparr>rasterized := rasterized w @ pngs, saved_pdf := Some pages\<rparr>)"
    unfolding make_sheets_def
    apply (simp only: ink if_False split_beta Let_def)
    apply (fold pngs_def positions_def)
    apply (simp only: ras pag prod.case sum.case pne if_False fst_conv snd_conv)
    done
  show ?thesis
    apply (rule exI [of _ pages])
    using ms len full lst cc
    by (simp add: N_def n_def pp_def pngs_def)
qed



text \<open>Scenario A: ten and five cards on a 3 by 3 grid give two pages of 9 and 6 cards.\<close>

theorem make_sheets_pages_witness:
  "\<exists>pages.
     make_sheets ''inkscape'' (\<lambda>svg. True)
        (replicate 10 ''Sword_of_the_Autumn_Wolf'' @ replicate 5 ''Potion_of_Brightmind'')
        300 ''a4portrait'' 3 3 60 18 744 1039 False \<lparr>rasterized = [], saved_pdf = None\<rparr>
       = (Inr (), \<lparr>rasterized = zip [1..<16] (replicate 10 ''Sword_of_the_Autumn_Wolf''
                                                  @ replicate 5 ''Potion_of_Brightmind''),
                    saved_pdf = Some pages\<rparr>)
     \<and> map (length \<circ> placed) pages = [9, 6]"
proof -
  let ?svgs = "replicate 10 ''Sword_of_the_Autumn_Wolf'' @ replicate 5 ''Potion_of_Brightmind''"
  have len: "length ?svgs = 15" by simp
  have "\<exists>pages.
           make_sheets ''inkscape'' (\<lambda>svg. True) ?svgs 300 ''a4portrait'' 3 3 60 18 744 1039 False
                       \<lparr>rasterized = [], saved_pdf = None\<rparr>
             = (Inr (), \<lparr>rasterized = [], saved_pdf = None\<rparr>
                          \<lparr>rasterized := rasterized \<lparr>rasterized = [], saved_pdf = None\<rparr>
                                          @ zip [1..<Suc (length ?svgs)] ?svgs,
                          saved_pdf := Some pages\<rparr>)
         \<and> length pages = (length ?svgs + nat (3 * 3) - 1) div nat (3 * 3)
         \<and> (\<forall>k < length pages - 1. length (placed (pages ! k)) = nat (3 * 3))
         \<and> length (placed (last pages))
             = length ?svgs - (length pages - 1) * nat (3 * 3)
         \<and> concat (map (map fst \<circ> placed) pages) = zip [1..<Suc (length ?svgs)] ?svgs"
    by (rule make_sheets_pages) simp_all
  then obtain pages where
      ms: "make_sheets ''inkscape'' (\<lambda>svg. True) ?svgs 300 ''a4portrait'' 3 3 60 18 744 1039 False
                       \<lparr>rasterized = [], saved_pdf = None\<rparr>
             = (Inr (), \<lparr>rasterized = [], saved_pdf = None\<rparr>
                          \<lparr>rasterized := rasterized \<lparr>rasterized = [], saved_pdf = None\<rparr>
                                          @ zip [1..<Suc (length ?svgs)] ?svgs,
                          saved_pdf := Some pages\<rparr>)"
      and l: "length pages = (length ?svgs + nat (3 * 3) - 1) div nat (3 * 3)"
      and f: "\<forall>k < length pages - 1. length (placed (pages ! k)) = nat (3 * 3)"
      and la: "length (placed (last pages)) = length ?svgs - (length pages - 1) * nat (3 * 3)"
    by blast
  have l2: "length pages = 2" unfolding l len by simp
  then obtain p q where pq: "pages = [p, q]"
    by (metis (no_types) length_0_conv length_Suc_conv numeral_2_eq_2)
  have "length (placed p) = 9" using f unfolding pq by simp
  moreover have "length (placed q) = 6" using la unfolding pq len by simp
  ultimately have "map (length \<circ> placed) pages = [9, 6]" by (simp add: pq)
  moreover have "Suc (length ?svgs) = 16" by simp
  ultimately show ?thesis using ms by (intro exI [of _ pages]) (simp only: , simp)
qed


subsection \<open>Grid centering\<close>

lemma a4_300: "a4_dimensions 300 ''a4portrait'' = (2480, 3508)"
  by (simp add: a4_dimensions_def py_round_e9_def)

lemma hd_layout_3x3:
  "hd (layout_positions sheet_w sheet_h card_w card_h 3 3 m g)
     = ((sheet_w - (3 * card_w + 2 * g)) div 2, (sheet_h - (3 * card_h + 2 * g)) div 2)"
  by (simp add: layout_positions_def py_range_def Let_def numeral_3_eq_3 upt_rec)


text \<open>
  Claim C3. At 300 dpi the A4 portrait page is 2480 by 3508 pixels; for a 3 by 3 grid of
  744 by 1039 cards with gutter 18 the left origin is \<open>x0 = 106\<close>, and
  \<open>2 * x0 + 3 * 744 + 2 * 18\<close> differs from 2481 by at most 1, for the computed width and
  for a page of width 2481 alike. For any page width the origin is the floor of half the
  free space, so the block is off centre by at most one pixel.
\<close>

theorem grid_centering_a4_300dpi:
  "a4_dimensions 300 ''a4portrait'' = (2480, 3508)
   \<and> fst (hd (layout_positions (fst (a4_dimensions 300 ''a4portrait''))
                                (snd (a4_dimensions 300 ''a4portrait''))
                                744 1039 3 3 margin_px 18)) = 106
   \<and> \<bar>2 * fst (hd (layout_positions (fst (a4_dimensions 300 ''a4portrait''))
                                (snd (a4_dimensions 300 ''a4portrait''))
                                744 1039 3 3 margin_px 18)) + 3 * 744 + 2 * 18 - 2481\<bar> \<le> 1
   \<and> \<bar>2 * fst (hd (layout_positions 2481 sheet_h 744 1039 3 3 margin_px 18))
        + 3 * 744 + 2 * 18 - 2481\<bar> \<le> 1
   \<and> (let x0 = fst (hd (layout_positions sheet_w sheet_h 744 1039 3 3 margin_px 18))
      in x0 = (sheet_w - (3 * 744 + 2 * 18)) div 2
         \<and> 0 \<le> sheet_w - (2 * x0 + 3 * 744 + 2 * 18)
         \<and> sheet_w - (2 * x0 + 3 * 744 + 2 * 18) \<le> 1)"
  unfolding a4_300 hd_layout_3x3 Let_def by (simp, presburger)


subsection \<open>The margin parameter\<close>

text \<open>
  Claim C10. The cell origins do not depend on the outer margin: two calls of
  \<open>layout_positions\<close> that differ only in \<open>margin_px\<close> give the same list, and so do two
  runs of \<open>make_sheets\<close>.
\<close>

theorem layout_positions_margin_independent:
  "layout_positions sheet_w sheet_h card_w card_h cols rows m1 gutter_px
     = layout_positions sheet_w sheet_h card_w card_h cols rows m2 gutter_px
   \<and> make_sheets inkscape export_ok svg_paths dpi orientation cols rows m1 gutter_px
                  card_w card_h add_crop w
     = make_sheets inkscape export_ok svg_paths dpi orientation cols rows m2 gutter_px
                  card_w card_h add_crop w"
  by (simp add: layout_positions_def make_sheets_def)



subsection \<open>Resolving requests, failing fast\<close>

lemma fold_index_Some:
  "fold (\<lambda>p index. index(lower p \<mapsto> p)) files m k = Some p \<Longrightarrow>
   (p \<in> set files \<and> lower p = k) \<or> m k = Some p"
  by (induction files arbitrary: m) (fastforce split: if_splits)+

lemma fold_index_dom:
  "dom (fold (\<lambda>p index. index(lower p \<mapsto> p)) files m) = dom m \<union> lower ` set files"
  by (induction files arbitrary: m) auto

lemma build_index_Some:
  "build_index lower cards_dir k = Some p \<Longrightarrow> p \<in> set cards_dir \<and> lower p = k"
  using fold_index_Some [of lower cards_dir Map.empty k p] by (simp add: build_index_def)

lemma build_index_None:
  "build_index lower cards_dir k = None \<longleftrightarrow> k \<notin> lower ` set cards_dir"
proof -
  have "dom (build_index lower cards_dir) = lower ` set cards_dir"
    by (simp add: build_index_def fold_index_dom)
  then show ?thesis by (metis domIff)
qed

lemma collect_loop_resolved:
  "\<forall>(base, count) \<in> set requests. index (lower base) \<noteq> None \<Longrightarrow>
   collect_loop lower index requests out =
     Inr (out @ concat (map (\<lambda>(base, count). replicate (nat count) (the (index (lower base))))
                            requests))"
  by (induction requests arbitrary: out) (auto simp: Let_def)

lemma collect_loop_unresolved:
  "\<exists>(base, count) \<in> set requests. index (lower base) = None \<Longrightarrow>
   \<exists>base. base \<in> fst ` set requests \<and> index (lower base) = None
        \<and> collect_loop lower index requests out = Inl (FileNotFoundError base)"
proof (induction requests arbitrary: out)
  case Nil
  then show ?case by simp
next
  case (Cons r requests)
  obtain b c where r: "r = (b, c)" by (cases r)
  show ?case
  proof (cases "index (lower b)")
    case None
    then show ?thesis unfolding r by (intro exI [of _ b]) simp
  next
    case (Some p)
    with Cons.prems r have "\<exists>(base, count) \<in> set requests. index (lower base) = None"
      by auto
    from Cons.IH [OF this, of "out @ replicate (nat c) p"]
    show ?thesis unfolding r using Some by auto
  qed
qed

lemma main_resolved:
  assumes rq: "requests = parse_adds strip (arg_add a)" and ne: "requests \<noteq> []"
    and all: "\<forall>(base, count) \<in> set requests. lower base \<in> lower ` set cards_dir"
  shows "\<exists>svg_list.
           collect_files lower cards_dir requests = Inr svg_list
         \<and> svg_list = concat (map (\<lambda>(base, count).
                                    replicate (nat count) (the (build_index lower cards_dir (lower base))))
                                 requests)
         \<and> (\<forall>(base, count) \<in> set requests.
               \<exists>p \<in> set cards_dir. build_index lower cards_dir (lower base) = Some p
                                  \<and> lower p = lower base)
         \<and> main lower strip cards_dir inkscape export_ok a w
             = make_sheets inkscape export_ok svg_list (arg_dpi a) (arg_orientation a)
                           (arg_cols a) (arg_rows a) (arg_margin a) (arg_gutter a)
                           744 1039 (arg_crop a) w"
proof -
  have res: "\<forall>(base, count) \<in> set requests. build_index lower cards_dir (lower base) \<noteq> None"
    using all by (auto simp: build_index_None)
  let ?svgs = "concat (map (\<lambda>(base, count).
                 replicate (nat count) (the (build_index lower cards_dir (lower base)))) requests)"
  have cf: "collect_files lower cards_dir requests = Inr ?svgs"
    using collect_loop_resolved
            [where index = "build_index lower cards_dir" and lower = lower and out = "[]", OF res]
    by (simp add: collect_files_def)
  have each: "\<forall>(base, count) \<in> set requests.
             \<exists>p \<in> set cards_dir. build_index lower cards_dir (lower base) = Some p
                                \<and> lower p = lower base"
    using res build_index_Some [of lower cards_dir] by fastforce
  have "main lower strip cards_dir inkscape export_ok a w
           = make_sheets inkscape export_ok ?svgs (arg_dpi a) (arg_orientation a)
                         (arg_cols a) (arg_rows a) (arg_margin a) (arg_gutter a)
                         744 1039 (arg_crop a) w"
    using ne cf by (simp add: main_def rq [symmetric])
  with cf each show ?thesis by blast
qed

lemma main_unresolved:
  assumes rq: "requests = parse_adds strip (arg_add a)" and ne: "requests \<noteq> []"
    and some: "\<not> (\<forall>(base, count) \<in> set requests. lower base \<in> lower ` set cards_dir)"
  shows "\<exists>base. base \<in> fst ` set requests
              \<and> lower base \<notin> lower ` set cards_dir
              \<and> collect_files lower cards_dir requests = Inl (FileNotFoundError base)
              \<and> main lower strip cards_dir inkscape export_ok a w
                  = (Inl (FileNotFoundError base), w)"
proof -
  have "\<exists>(base, count) \<in> set requests. build_index lower cards_dir (lower base) = None"
    using some by (auto simp: build_index_None)
  from collect_loop_unresolved
         [where index = "build_index lower cards_dir" and lower = lower and out = "[]", OF this]
  obtain base where b: "base \<in> fst ` set requests"
      and n: "build_index lower cards_dir (lower base) = None"
      and cf: "collect_files lower cards_dir requests = Inl (FileNotFoundError base)"
    unfolding collect_files_def by blast
  have "main lower strip cards_dir inkscape export_ok a w = (Inl (FileNotFoundError base), w)"
    using ne cf by (simp add: main_def rq [symmetric])
  with b n cf show ?thesis unfolding build_index_None by blast
qed

text \<open>
  Claim C8. Whatever \<open>str.lower\<close> and \<open>str.strip\<close> compute (they are the parameters \<open>lower\<close>
  and \<open>strip\<close>), a run with at least one request of positive count either resolves every
  requested name, compared in lower case, to a file of the card directory and goes on to
  \<open>make_sheets\<close> with the resolved files, each repeated by its count; or some requested name
  has no file, and then the run ends with \<open>FileNotFoundError\<close> for that name (the source's
  error for a card that is not found) and leaves the world as it was: nothing was
  rasterized and no document was saved.
\<close>

theorem main_resolves_or_fails_fast:
  "let requests = parse_adds strip (arg_add a) in
   requests \<noteq> [] \<longrightarrow>
   (if \<forall>(base, count) \<in> set requests. lower base \<in> lower ` set cards_dir
    then \<exists>svg_list.
           collect_files lower cards_dir requests = Inr svg_list
         \<and> svg_list = concat (map (\<lambda>(base, count).
                                    replicate (nat count) (the (build_index lower cards_dir (lower base))))
                                 requests)
         \<and> (\<forall>(base, count) \<in> set requests.
               \<exists>p \<in> set cards_dir. build_index lower cards_dir (lower base) = Some p
                                  \<and> lower p = lower base)
         \<and> main lower strip cards_dir inkscape export_ok a w
             = make_sheets inkscape export_ok svg_list (arg_dpi a) (arg_orientation a)
                           (arg_cols a) (arg_rows a) (arg_margin a) (arg_gutter a)
                           744 1039 (arg_crop a) w
    else \<exists>base. base \<in> fst ` set requests
              \<and> lower base \<notin> lower ` set cards_dir
              \<and> collect_files lower cards_dir requests = Inl (FileNotFoundError base)
              \<and> main lower strip cards_dir inkscape export_ok a w
                  = (Inl (FileNotFoundError base), w))"
  unfolding Let_def
  using main_resolved [OF refl, of strip a lower cards_dir inkscape export_ok w]
        main_unresolved [OF refl, of strip a lower cards_dir inkscape export_ok w]
  by (simp only: if_split, blast)

text \<open>
  Scenario D, and a request that differs from the file name in case only, with the two
  methods on ASCII text.
\<close>

theorem main_resolves_or_fails_fast_witness:
  "main py_lower py_strip [''Sword_of_the_Autumn_Wolf'', ''Potion_of_Brightmind'']
        ''inkscape'' (\<lambda>svg. True)
        \<lparr>arg_add = [(''Dragon_Egg'', 1)], arg_dpi = 300, arg_orientation = ''a4portrait'',
         arg_cols = 3, arg_rows = 3, arg_margin = 60, arg_gutter = 18, arg_crop = False\<rparr>
        \<lparr>rasterized = [], saved_pdf = None\<rparr>
     = (Inl (FileNotFoundError ''Dragon_Egg''), \<lparr>rasterized = [], saved_pdf = None\<rparr>)
   \<and> collect_files py_lower [''Sword_of_the_Autumn_Wolf'', ''Potion_of_Brightmind'']
                     (parse_adds py_strip [(''sword_OF_the_autumn_wolf'', 2)])
     = Inr [''Sword_of_the_Autumn_Wolf'', ''Sword_of_the_Autumn_Wolf'']"
proof -
  let ?dir = "[''Sword_of_the_Autumn_Wolf'', ''Potion_of_Brightmind'']"
  let ?w = "\<lparr>rasterized = [], saved_pdf = None\<rparr>"
  let ?a = "\<lambda>adds. \<lparr>arg_add = adds, arg_dpi = 300, arg_orientation = ''a4portrait'',
         arg_cols = 3, arg_rows = 3, arg_margin = 60, arg_gutter = 18, arg_crop = False\<rparr>"
  have lo: "py_lower ''Sword_of_the_Autumn_Wolf'' = ''sword_of_the_autumn_wolf''"
       "py_lower ''Potion_of_Brightmind'' = ''potion_of_brightmind''"
       "py_lower ''Dragon_Egg'' = ''dragon_egg''"
       "py_lower ''sword_OF_the_autumn_wolf'' = ''sword_of_the_autumn_wolf''"
    by (simp_all add: py_lower_def lower_char_def)
  have p1: "parse_adds py_strip [(''Dragon_Egg'', 1)] = [(''Dragon_Egg'', 1)]"
    by (simp add: parse_adds_def py_strip_def py_isspace_def)
  have p2: "parse_adds py_strip [(''sword_OF_the_autumn_wolf'', 2)]
              = [(''sword_OF_the_autumn_wolf'', 2)]"
    by (simp add: parse_adds_def py_strip_def py_isspace_def)
  have ix: "build_index py_lower ?dir ''sword_of_the_autumn_wolf'' = Some ''Sword_of_the_Autumn_Wolf''"
    by (simp add: build_index_def lo)
  have first: "main py_lower py_strip ?dir ''inkscape'' (\<lambda>svg. True) (?a [(''Dragon_Egg'', 1)]) ?w
                 = (Inl (FileNotFoundError ''Dragon_Egg''), ?w)"
    using main_resolves_or_fails_fast [of py_strip "?a [(''Dragon_Egg'', 1)]" py_lower ?dir
                                          "''inkscape''" "\<lambda>svg. True" ?w]
    by (simp add: Let_def p1 lo)
  have second: "collect_files py_lower ?dir (parse_adds py_strip [(''sword_OF_the_autumn_wolf'', 2)])
                  = Inr [''Sword_of_the_Autumn_Wolf'', ''Sword_of_the_Autumn_Wolf'']"
    using main_resolves_or_fails_fast [of py_strip "?a [(''sword_OF_the_autumn_wolf'', 2)]" py_lower
                                          ?dir "''inkscape''" "\<lambda>svg. True" ?w]
    by (simp add: Let_def p2 lo ix numeral_2_eq_2)
  show ?thesis using first second by simp
qed

section \<open>Properties of the card layout\<close>

subsection \<open>Themes\<close>

lemma default_theme_eval:
  "default_theme ''frame_inner'' = Some (Str ''#B0B0B0'')"
  "default_theme ''card_sz'' = Some (Tup [744, 1039])"
  "default_theme ''inner_rec'' = Some (Tup [12, 12, 720, 1015])"
  "default_theme ''title_rec'' = Some (Tup [18, 18, 708, 52])"
  "default_theme ''art_rec'' = Some (Tup [18, 76, 708, 430])"
  "default_theme ''type_rec'' = Some (Tup [18, 512, 708, 52])"
  "default_theme ''rules_rec'' = Some (Tup [18, 570, 708, 360])"
  "default_theme ''opt_box'' = Some (Tup [726, 936, 150, 54])"
  "default_theme ''opt_txt_rec'' = Some (Tup [651, 972, 24])"
  by (simp_all add: default_theme_def)

lemma get_theme_other:
  "k \<noteq> ''frame_inner'' \<Longrightarrow> get_theme name rarity k = (default_theme ++ name) k"
  by (simp add: get_theme_def Let_def split: option.splits)

lemma default_theme_strs:
  "default_theme ''pt_bg'' = Some (Str ''#e9e3d9'')"
  "default_theme ''pt_fg'' = Some (Str ''#111'')"
  "default_theme ''frame_border'' = Some (Str ''#121212'')"
  "default_theme ''font_serif'' = Some (Str ''Georgia, 'Times New Roman', serif'')"
  "default_theme ''opt_box'' = Some (Tup [726, 936, 150, 54])"
  "default_theme ''opt_txt_rec'' = Some (Tup [651, 972, 24])"
  by (simp_all add: default_theme_def)

text \<open>
  Claim C7. The inner frame colour of the resolved theme is the palette entry when the
  rarity is a key of the palette, and otherwise the colour of the theme before the
  rarity is looked at: the override's, or the default \<open>#B0B0B0\<close>. The palette has six
  keys; \<open>Legendary\<close> without an override gives \<open>#CF9F9F\<close>, and \<open>VeryRare\<close> (the spec's
  spelling; the palette's key is \<open>Very Rare\<close>) is not in the palette and keeps the default.
\<close>

theorem rarity_selects_inner_accent:
  "get_theme name rarity ''frame_inner'' =
     (case rarity_colors rarity of
        Some colour \<Rightarrow> Some (Str colour)
      | None \<Rightarrow> (case name ''frame_inner'' of Some v \<Rightarrow> Some v | None \<Rightarrow> Some (Str ''#B0B0B0'')))
   \<and> dom rarity_colors
       = {''Common'', ''Uncommon'', ''Rare'', ''Very Rare'', ''Legendary'', ''Quest''}
   \<and> rarity_colors ''Legendary'' = Some ''#CF9F9F''
   \<and> get_theme Map.empty ''Legendary'' ''frame_inner'' = Some (Str ''#CF9F9F'')
   \<and> rarity_colors ''VeryRare'' = None
   \<and> get_theme Map.empty ''VeryRare'' ''frame_inner'' = Some (Str ''#B0B0B0'')"
proof -
  have a: "get_theme name rarity ''frame_inner'' =
     (case rarity_colors rarity of
        Some colour \<Rightarrow> Some (Str colour)
      | None \<Rightarrow> (case name ''frame_inner'' of Some v \<Rightarrow> Some v | None \<Rightarrow> Some (Str ''#B0B0B0'')))"
    for name rarity
    by (simp add: get_theme_def Let_def map_add_def default_theme_eval split: option.splits)
  have d: "dom rarity_colors
       = {''Common'', ''Uncommon'', ''Rare'', ''Very Rare'', ''Legendary'', ''Quest''}"
    unfolding rarity_colors_def by (simp add: dom_map_of_conv_image_fst)
  have l: "rarity_colors ''Legendary'' = Some ''#CF9F9F''" and v: "rarity_colors ''VeryRare'' = None"
    by (simp_all add: rarity_colors_def)
  show ?thesis using a [of name rarity] d l v by (simp add: a)
qed

text \<open>
  Claim C1 does not hold as stated. In the default theme the inner frame contains the
  title bar, so the two rectangles overlap; and an override replaces a rectangle as a
  whole, without moving the others: an art rectangle of \<open>(18, 18, 708, 430)\<close> lies
  within the canvas and covers the title bar.
\<close>

theorem regions_overlap_counterexample:
  "unpack4 (get_theme Map.empty ''Common'') ''inner_rec'' = Inr (12, 12, 720, 1015)
   \<and> unpack4 (get_theme Map.empty ''Common'') ''title_rec'' = Inr (18, 18, 708, 52)
   \<and> rect_overlap (12, 12, 720, 1015) (18, 18, 708, 52)
   \<and> unpack4 (get_theme [''art_rec'' \<mapsto> Tup [18, 18, 708, 430]] ''Common'') ''art_rec''
       = Inr (18, 18, 708, 430)
   \<and> unpack4 (get_theme [''art_rec'' \<mapsto> Tup [18, 18, 708, 430]] ''Common'') ''title_rec''
       = Inr (18, 18, 708, 52)
   \<and> rect_inside (18, 18, 708, 430) (0, 0, 744, 1039)
   \<and> rect_overlap (18, 18, 708, 52) (18, 18, 708, 430)"
  by (simp add: unpack4_def get_theme_other default_theme_eval map_add_def rect_overlap_def rect_inside_def)

text \<open>
  Claim C1, amended. When the override has none of the geometry keys, the theme has the
  rectangles computed from the constants of \<open>get_theme\<close>, whatever the rarity: the title
  bar, the art window, the type line, the rules box and the three badge boxes as drawn
  are pairwise disjoint, each lies within the inner frame, and the inner frame lies
  within the 744 by 1039 canvas.
\<close>

theorem band_layout:
  assumes "dom name \<inter> {''card_sz'', ''inner_rec'', ''title_rec'', ''art_rec'', ''type_rec'',
                         ''rules_rec'', ''opt_box''} = {}"
  shows "unpack2 (get_theme name rarity) ''card_sz'' = Inr (744, 1039)
       \<and> unpack4 (get_theme name rarity) ''inner_rec'' = Inr (12, 12, 720, 1015)
       \<and> unpack4 (get_theme name rarity) ''title_rec'' = Inr (18, 18, 708, 52)
       \<and> unpack4 (get_theme name rarity) ''art_rec'' = Inr (18, 76, 708, 430)
       \<and> unpack4 (get_theme name rarity) ''type_rec'' = Inr (18, 512, 708, 52)
       \<and> unpack4 (get_theme name rarity) ''rules_rec'' = Inr (18, 570, 708, 360)
       \<and> unpack4 (get_theme name rarity) ''opt_box'' = Inr (726, 936, 150, 54)
       \<and> disjoint_all [(18, 18, 708, 52), (18, 76, 708, 430), (18, 512, 708, 52),
                       (18, 570, 708, 360), badge_rect (726, 936, 150, 54) 0,
                       badge_rect (726, 936, 150, 54) 1, badge_rect (726, 936, 150, 54) 2]
       \<and> list_all (\<lambda>r. rect_inside r (12, 12, 720, 1015))
            [(18, 18, 708, 52), (18, 76, 708, 430), (18, 512, 708, 52),
             (18, 570, 708, 360), badge_rect (726, 936, 150, 54) 0,
             badge_rect (726, 936, 150, 54) 1, badge_rect (726, 936, 150, 54) 2]
       \<and> rect_inside (12, 12, 720, 1015) (0, 0, 744, 1039)"
proof -
  have n: "name ''card_sz'' = None" "name ''inner_rec'' = None" "name ''title_rec'' = None"
    "name ''art_rec'' = None" "name ''type_rec'' = None" "name ''rules_rec'' = None"
    "name ''opt_box'' = None"
    using assms by (auto simp: disjoint_iff domIff)
  have g: "unpack2 (get_theme name rarity) ''card_sz'' = Inr (744, 1039)
       \<and> unpack4 (get_theme name rarity) ''inner_rec'' = Inr (12, 12, 720, 1015)
       \<and> unpack4 (get_theme name rarity) ''title_rec'' = Inr (18, 18, 708, 52)
       \<and> unpack4 (get_theme name rarity) ''art_rec'' = Inr (18, 76, 708, 430)
       \<and> unpack4 (get_theme name rarity) ''type_rec'' = Inr (18, 512, 708, 52)
       \<and> unpack4 (get_theme name rarity) ''rules_rec'' = Inr (18, 570, 708, 360)
       \<and> unpack4 (get_theme name rarity) ''opt_box'' = Inr (726, 936, 150, 54)"
    by (simp add: unpack2_def unpack4_def get_theme_other map_add_def n default_theme_eval)
  have d: "disjoint_all [(18, 18, 708, 52), (18, 76, 708, 430), (18, 512, 708, 52),
                       (18, 570, 708, 360), badge_rect (726, 936, 150, 54) 0,
                       badge_rect (726, 936, 150, 54) 1, badge_rect (726, 936, 150, 54) 2]"
    by (simp add: rect_overlap_def badge_rect_def)
  have i: "list_all (\<lambda>r. rect_inside r (12, 12, 720, 1015))
            [(18, 18, 708, 52), (18, 76, 708, 430), (18, 512, 708, 52),
             (18, 570, 708, 360), badge_rect (726, 936, 150, 54) 0,
             badge_rect (726, 936, 150, 54) 1, badge_rect (726, 936, 150, 54) 2]"
    by (simp add: rect_inside_def badge_rect_def)
  have c: "rect_inside (12, 12, 720, 1015) (0, 0, 744, 1039)"
    by (simp add: rect_inside_def)
  from g d i c show ?thesis by blast
qed

theorem band_layout_witness:
  "unpack4 (get_theme [''frame_bg'' \<mapsto> Str ''#000000''] ''Legendary'') ''rules_rec''
     = Inr (18, 570, 708, 360)
   \<and> unpack4 (get_theme [''frame_bg'' \<mapsto> Str ''#000000''] ''Legendary'') ''opt_box''
     = Inr (726, 936, 150, 54)
   \<and> badge_rect (726, 936, 150, 54) 2 = (264, 936, 150, 54)"
  using band_layout [of "[''frame_bg'' \<mapsto> Str ''#000000'']" "''Legendary''"]
  by (simp add: badge_rect_def)


subsection \<open>What \<open>build_svg\<close> reads\<close>

lemma and_then_Inr [simp]: "and_then (Inr v) f = f v"
  by (simp add: and_then_def)

lemma and_then_Inl [simp]: "and_then (Inl e) f = Inl e"
  by (simp add: and_then_def)

lemma and_then_eq_Inr:
  "and_then r f = Inr v \<longleftrightarrow> (\<exists>u. r = Inr u \<and> f u = Inr v)"
  by (cases r) simp_all

lemma build_art_str_frame:
  assumes "\<forall>p. art_path = Some p \<longrightarrow> files1 p = files2 p"
  shows "build_art_str files1 th art_path = build_art_str files2 th art_path"
proof (cases art_path)
  case None
  then show ?thesis by (simp add: build_art_str_def)
next
  case (Some p)
  with assms have "files1 p = files2 p" by simp
  then have uri: "data_uri_for_image files1 p mime = data_uri_for_image files2 p mime" for mime
    by (simp add: data_uri_for_image_def)
  show ?thesis by (simp only: build_art_str_def Some option.case Let_def uri)
qed

text \<open>
  Of the file system, \<open>build_svg\<close> reads the art file that the card names and nothing else:
  with two file systems that agree on that path, the file name and the SVG text are the
  same, byte for byte. (That two calls on the same card and the same file system give the
  same document is not a statement about \<open>build_svg\<close> here: it is a function, with no
  input but the ones written.)
\<close>

lemma build_svg_reads_art_only:
  assumes "\<forall>p. c_art_path c = Some p \<longrightarrow> files1 p = files2 p"
  shows "build_svg files1 c = build_svg files2 c"
  unfolding build_svg_def build_parts_def Let_def build_art_str_frame [OF assms]
  by (rule refl)

lemma build_svg_reads_art_only_example:
  "build_svg [''art/wolf.png'' \<mapsto> ''PNG'']
     \<lparr>c_name = Some ''Wolf'', c_rarity = Some ''Rare'', c_theme = None,
      c_art_path = Some ''art/wolf.png'', c_type_line = None, c_rules_text = None,
      c_flavor_text = None, c_pt = None, c_price = None, c_weight = None,
      c_set_code = None, c_collector = None, c_author = None, c_copyright = None\<rparr>
   = build_svg [''art/wolf.png'' \<mapsto> ''PNG'', ''art/bear.png'' \<mapsto> ''other'']
     \<lparr>c_name = Some ''Wolf'', c_rarity = Some ''Rare'', c_theme = None,
      c_art_path = Some ''art/wolf.png'', c_type_line = None, c_rules_text = None,
      c_flavor_text = None, c_pt = None, c_price = None, c_weight = None,
      c_set_code = None, c_collector = None, c_author = None, c_copyright = None\<rparr>"
  by (rule build_svg_reads_art_only) simp


subsection \<open>Stat badges\<close>

lemma fstr_ok:
  "\<forall>k. Key k \<in> set ps \<longrightarrow> th k \<noteq> None \<Longrightarrow> fstr th ps = Inr (concat (map (piece_text th) ps))"
proof (induction ps)
  case Nil
  then show ?case by simp
next
  case (Cons p ps)
  then have ih: "fstr th ps = Inr (concat (map (piece_text th) ps))" by simp
  show ?case
  proof (cases p)
    case (Key k)
    with Cons.prems obtain v where "th k = Some v" by auto
    then show ?thesis by (simp add: Key ih)
  qed (simp_all add: ih)
qed

lemma badge_ok:
  assumes "th ''pt_bg'' \<noteq> None" "th ''frame_border'' \<noteq> None"
    "th ''font_serif'' \<noteq> None" "th ''pt_fg'' \<noteq> None"
  shows \<open>\<exists>rest. badge th x y w h tx ty fs el
            = Inr (''<g><rect x="'' @ str_int (x - w) @ ''" y="'' @ str_int y @ ''" width="''
                   @ str_int w @ ''" height="'' @ str_int h @ ''" rx="8" ry="8" fill="'' @ rest)\<close>
  unfolding badge_def
  apply (subst fstr_ok)
  using assms apply auto[1]
  apply (subst fstr_ok)
  using assms apply auto[1]
  apply simp
  done

lemma optional_loop_badges:
  assumes "th ''pt_bg'' \<noteq> None" "th ''frame_border'' \<noteq> None"
    "th ''font_serif'' \<noteq> None" "th ''pt_fg'' \<noteq> None"
  shows "\<exists>badges.
           optional_loop th x y w h tx ty fs els acc = Inr (acc @ concat badges)
         \<and> length badges = length (filter truthy els)
         \<and> (\<forall>i < length badges.
               badge th (x - int i * (w + 6)) y w h (tx - int i * (w + 6)) ty fs
                     (the (filter truthy els ! i)) = Inr (badges ! i))"
proof (induction els arbitrary: x tx acc)
  case Nil
  show ?case by (intro exI [of _ "[]"]) simp
next
  case (Cons el els)
  show ?case
  proof (cases "truthy el")
    case False
    from Cons [of x tx acc] show ?thesis using False by simp
  next
    case True
    obtain s where s: "badge th x y w h tx ty fs (the el) = Inr s"
      using badge_ok [OF assms] by blast
    from Cons [of "x - (w + 6)" "tx - (w + 6)" "acc @ s"]
    obtain badges where
      b: "optional_loop th (x - (w + 6)) y w h (tx - (w + 6)) ty fs els (acc @ s)
            = Inr ((acc @ s) @ concat badges)"
      and l: "length badges = length (filter truthy els)"
      and e: "\<forall>i < length badges.
               badge th (x - (w + 6) - int i * (w + 6)) y w h (tx - (w + 6) - int i * (w + 6)) ty fs
                     (the (filter truthy els ! i)) = Inr (badges ! i)"
      by blast
    have "\<forall>i < length (s # badges).
               badge th (x - int i * (w + 6)) y w h (tx - int i * (w + 6)) ty fs
                     (the (filter truthy (el # els) ! i)) = Inr ((s # badges) ! i)"
    proof (intro allI impI)
      fix i assume "i < length (s # badges)"
      show "badge th (x - int i * (w + 6)) y w h (tx - int i * (w + 6)) ty fs
                     (the (filter truthy (el # els) ! i)) = Inr ((s # badges) ! i)"
      proof (cases i)
        case 0
        then show ?thesis using True s by simp
      next
        case (Suc j)
        then have "j < length badges" using \<open>i < length (s # badges)\<close> by simp
        with e have "badge th (x - (w + 6) - int j * (w + 6)) y w h (tx - (w + 6) - int j * (w + 6)) ty fs
                     (the (filter truthy els ! j)) = Inr (badges ! j)" by simp
        moreover have "x - (w + 6) - int j * (w + 6) = x - int i * (w + 6)"
          "tx - (w + 6) - int j * (w + 6) = tx - int i * (w + 6)"
          by (simp_all add: Suc algebra_simps)
        ultimately show ?thesis using True Suc by simp
      qed
    qed
    then show ?thesis
      using True s b l by (intro exI [of _ "s # badges"]) simp
  qed
qed


lemma build_optional_no_stats:
  "build_optional_str th a b d = Inr s \<Longrightarrow> build_optional_str th None None None = Inr []"
  by (auto simp: build_optional_str_def and_then_eq_Inr truthy_def)

lemma build_parts_no_stats:
  assumes "build_parts files c = Inr p"
  shows "build_parts files (c\<lparr>c_pt := None, c_price := None, c_weight := None\<rparr>)
           = Inr (p\<lparr>p_opt_str := []\<rparr>)"
proof -
  let ?th = "get_theme (get_or (c_theme c) Map.empty) (get_or (c_rarity c) ''Common'')"
  from assms obtain frame title ca type_s rules opt footer wh where
    f1: "build_frame_str ?th = Inr frame"
    and f2: "build_title_str ?th (get_or (c_name c) ''Unnamed Item'') (get_or (c_rarity c) ''Common'') = Inr title"
    and f3: "build_art_str files ?th (c_art_path c) = Inr ca"
    and f4: "build_type_str ?th (get_or (c_type_line c) (''Item '' @ emdash @ '' Wondrous'')) = Inr type_s"
    and f5: "build_rules_str ?th (get_or (c_rules_text c) (TStr emdash)) (py_strip (get_or (c_flavor_text c) [])) = Inr rules"
    and f6: "build_optional_str ?th (c_pt c) (c_price c) (c_weight c) = Inr opt"
    and f7: "build_footer_str ?th (get_or (c_set_code c) ''DND'') (get_or (c_collector c) ''001/001'')
              (get_or (c_author c) []) (get_or (c_copyright c) (copyright_sign @ '' 2025'')) = Inr footer"
    and f8: "unpack2 ?th ''card_sz'' = Inr wh"
    and p: "p = \<lparr>p_frame_str = frame, p_title_str = title, p_clipping_art = fst ca, p_art_img = snd ca,
          p_type_str = type_s, p_rules_str = rules, p_opt_str = opt, p_footer_str = footer,
          p_card_w = fst wh, p_card_h = snd wh\<rparr>"
    unfolding build_parts_def Let_def and_then_eq_Inr case_prod_beta by blast
  have f6n: "build_optional_str ?th None None None = Inr []"
    using build_optional_no_stats [OF f6] .
  let ?c = "c\<lparr>c_pt := None, c_price := None, c_weight := None\<rparr>"
  have sel: "c_theme ?c = c_theme c" "c_rarity ?c = c_rarity c" "c_name ?c = c_name c"
    "c_art_path ?c = c_art_path c" "c_type_line ?c = c_type_line c"
    "c_rules_text ?c = c_rules_text c" "c_flavor_text ?c = c_flavor_text c"
    "c_set_code ?c = c_set_code c" "c_collector ?c = c_collector c" "c_author ?c = c_author c"
    "c_copyright ?c = c_copyright c" "c_pt ?c = None" "c_price ?c = None" "c_weight ?c = None"
    by simp_all
  have upd: "p\<lparr>p_opt_str := []\<rparr>
      = \<lparr>p_frame_str = frame, p_title_str = title, p_clipping_art = fst ca, p_art_img = snd ca,
          p_type_str = type_s, p_rules_str = rules, p_opt_str = [], p_footer_str = footer,
          p_card_w = fst wh, p_card_h = snd wh\<rparr>"
    by (simp add: p)
  show ?thesis
    by (simp only: build_parts_def Let_def sel upd f1 f2 f3 f4 f5 f6n f7 f8 and_then_Inr
                   case_prod_beta)
qed

text \<open>
  Claim C6, as stated, gives one badge to every field that is present. The loop tests
  \<open>if el:\<close>, so a field that is present and holds the empty string gets no badge: with the
  default theme, a card whose power/toughness is the empty string and whose price is
  \<open>5 gp\<close> has two fields and one badge, the same badge as the card without the first field.
\<close>

theorem empty_stat_field_counterexample:
  \<open>length (filter (\<lambda>el. el \<noteq> None) [Some '''', Some ''5 gp'', None]) = 2
   \<and> build_optional_str (get_theme Map.empty ''Common'') (Some '''') None None = Inr []
   \<and> build_optional_str (get_theme Map.empty ''Common'') (Some '''') (Some ''5 gp'') None
       = build_optional_str (get_theme Map.empty ''Common'') None (Some ''5 gp'') None
   \<and> build_optional_str (get_theme Map.empty ''Common'') None (Some ''5 gp'') None
       = Inr (''<g><rect x="576" y="936" width="150" height="54" rx="8" ry="8" fill="#e9e3d9" ''
              @ ''stroke="#121212" stroke-width="2"/><text x="651" y="972" ''
              @ ''font-family="Georgia, 'Times New Roman', serif" font-size="24" ''
              @ ''font-weight="700" text-anchor="middle" fill="#111">5 gp</text></g>'')\<close>
  by code_simp

text \<open>
  Claim C6, amended: one badge for each field that is present and not empty. With a
  well-formed \<open>opt_box\<close> \<open>(x, y, w, h)\<close> and \<open>opt_txt_rec\<close>, and the four badge style keys in
  the theme, \<open>build_optional_str\<close> emits one badge for each field that is there and not
  empty, in the order power/toughness, price, weight; the \<open>i\<close>-th badge emitted is the badge
  at \<open>x - i * (w + 6)\<close>, whose box starts at \<open>x - i * (w + 6) - w\<close>: the first box ends at the
  right edge \<open>x\<close>, and no gap is left for a field that is missing or empty. With no such
  field nothing is emitted, and removing the three fields from a card changes nothing in
  the document's parts but the badges.
\<close>

theorem optional_badges:
  assumes box: "unpack4 th ''opt_box'' = Inr (x, y, w, h)"
    and anchor: "unpack3 th ''opt_txt_rec'' = Inr (tx, ty, fs)"
    and keys: "{''pt_bg'', ''frame_border'', ''font_serif'', ''pt_fg''} \<subseteq> dom th"
  shows \<open>(\<exists>badges.
            build_optional_str th pt price weight = Inr (concat badges)
          \<and> length badges = length (filter truthy [pt, price, weight])
          \<and> (\<forall>i < length badges.
                badge th (x - int i * (w + 6)) y w h (tx - int i * (w + 6)) ty fs
                      (the (filter truthy [pt, price, weight] ! i)) = Inr (badges ! i)
              \<and> (\<exists>rest. badges ! i =
                    ''<g><rect x="'' @ str_int (x - int i * (w + 6) - w) @ ''" y="'' @ str_int y
                    @ ''" width="'' @ str_int w @ ''" height="'' @ str_int h
                    @ ''" rx="8" ry="8" fill="'' @ rest)))
       \<and> (\<not> truthy pt \<and> \<not> truthy price \<and> \<not> truthy weight
            \<longrightarrow> build_optional_str th pt price weight = Inr [])
       \<and> (\<forall>files c p. build_parts files c = Inr p \<longrightarrow>
            build_parts files (c\<lparr>c_pt := None, c_price := None, c_weight := None\<rparr>)
              = Inr (p\<lparr>p_opt_str := []\<rparr>))\<close>
proof -
  have k: "th ''pt_bg'' \<noteq> None" "th ''frame_border'' \<noteq> None"
    "th ''font_serif'' \<noteq> None" "th ''pt_fg'' \<noteq> None"
    using keys by auto
  from optional_loop_badges [OF k, of x y w h tx ty fs "[pt, price, weight]" "[]"]
  obtain badges where
    b: "optional_loop th x y w h tx ty fs [pt, price, weight] [] = Inr (concat badges)"
    and l: "length badges = length (filter truthy [pt, price, weight])"
    and e: "\<forall>i < length badges.
               badge th (x - int i * (w + 6)) y w h (tx - int i * (w + 6)) ty fs
                     (the (filter truthy [pt, price, weight] ! i)) = Inr (badges ! i)"
    by auto
  have bo: "build_optional_str th pt price weight = Inr (concat badges)"
    unfolding build_optional_str_def box anchor by (simp only: and_then_Inr prod.case b)
  have pre: \<open>\<exists>rest. badges ! i =
                    ''<g><rect x="'' @ str_int (x - int i * (w + 6) - w) @ ''" y="'' @ str_int y
                    @ ''" width="'' @ str_int w @ ''" height="'' @ str_int h
                    @ ''" rx="8" ry="8" fill="'' @ rest\<close> if "i < length badges" for i
  proof -
    from e that have 1: "badge th (x - int i * (w + 6)) y w h (tx - int i * (w + 6)) ty fs
                      (the (filter truthy [pt, price, weight] ! i)) = Inr (badges ! i)"
      by blast
    from badge_ok [OF k, of "x - int i * (w + 6)" y w h "tx - int i * (w + 6)" ty fs
                            "the (filter truthy [pt, price, weight] ! i)"]
    obtain rest where 2: \<open>badge th (x - int i * (w + 6)) y w h (tx - int i * (w + 6)) ty fs
                      (the (filter truthy [pt, price, weight] ! i))
        = Inr (''<g><rect x="'' @ str_int (x - int i * (w + 6) - w) @ ''" y="'' @ str_int y
                    @ ''" width="'' @ str_int w @ ''" height="'' @ str_int h
                    @ ''" rx="8" ry="8" fill="'' @ rest)\<close>
      by blast
    from 1 2 have \<open>badges ! i = ''<g><rect x="'' @ str_int (x - int i * (w + 6) - w) @ ''" y="'' @ str_int y
                    @ ''" width="'' @ str_int w @ ''" height="'' @ str_int h
                    @ ''" rx="8" ry="8" fill="'' @ rest\<close>
      by (simp only: sum.inject)
    then show ?thesis by (rule exI)
  qed
  have first: \<open>\<exists>badges.
            build_optional_str th pt price weight = Inr (concat badges)
          \<and> length badges = length (filter truthy [pt, price, weight])
          \<and> (\<forall>i < length badges.
                badge th (x - int i * (w + 6)) y w h (tx - int i * (w + 6)) ty fs
                      (the (filter truthy [pt, price, weight] ! i)) = Inr (badges ! i)
              \<and> (\<exists>rest. badges ! i =
                    ''<g><rect x="'' @ str_int (x - int i * (w + 6) - w) @ ''" y="'' @ str_int y
                    @ ''" width="'' @ str_int w @ ''" height="'' @ str_int h
                    @ ''" rx="8" ry="8" fill="'' @ rest))\<close>
  proof (intro exI [of _ badges] conjI allI impI)
    show "build_optional_str th pt price weight = Inr (concat badges)" by (rule bo)
    show "length badges = length (filter truthy [pt, price, weight])" by (rule l)
  next
    fix i assume i: "i < length badges"
    from e i show "badge th (x - int i * (w + 6)) y w h (tx - int i * (w + 6)) ty fs
                      (the (filter truthy [pt, price, weight] ! i)) = Inr (badges ! i)"
      by blast
    from pre [OF i] show \<open>\<exists>rest. badges ! i =
                    ''<g><rect x="'' @ str_int (x - int i * (w + 6) - w) @ ''" y="'' @ str_int y
                    @ ''" width="'' @ str_int w @ ''" height="'' @ str_int h
                    @ ''" rx="8" ry="8" fill="'' @ rest\<close> .
  qed
  have second: "\<not> truthy pt \<and> \<not> truthy price \<and> \<not> truthy weight
            \<longrightarrow> build_optional_str th pt price weight = Inr []"
    by (simp add: build_optional_str_def box anchor)
  have third: "\<forall>files c p. build_parts files c = Inr p \<longrightarrow>
            build_parts files (c\<lparr>c_pt := None, c_price := None, c_weight := None\<rparr>)
              = Inr (p\<lparr>p_opt_str := []\<rparr>)"
    using build_parts_no_stats by blast
  from first second third show ?thesis by (intro conjI)
qed


text \<open>
  The default theme, with a power/toughness, an empty price and a weight: two badges, the
  second next to the first.
\<close>

theorem optional_badges_witness:
  \<open>\<exists>badges.
     build_optional_str (get_theme Map.empty ''Common'') (Some ''+1'') (Some '''') (Some ''3 lb'')
       = Inr (concat badges)
   \<and> length badges = 2
   \<and> (\<exists>rest. badges ! 0 = ''<g><rect x="576" y="936" width="150" height="54" rx="8" ry="8" fill="'' @ rest)
   \<and> (\<exists>rest. badges ! 1 = ''<g><rect x="420" y="936" width="150" height="54" rx="8" ry="8" fill="'' @ rest)\<close>
proof -
  let ?th = "get_theme Map.empty ''Common''"
  have box: "unpack4 ?th ''opt_box'' = Inr (726, 936, 150, 54)"
    and anchor: "unpack3 ?th ''opt_txt_rec'' = Inr (651, 972, 24)"
    by (simp_all add: unpack4_def unpack3_def get_theme_other default_theme_strs)
  have keys: "{''pt_bg'', ''frame_border'', ''font_serif'', ''pt_fg''} \<subseteq> dom ?th"
    by (simp add: get_theme_other default_theme_strs domIff)
  have tr: "filter truthy [Some ''+1'', Some '''', Some ''3 lb''] = [Some ''+1'', Some ''3 lb'']"
    by (simp add: truthy_def)
  have num: "str_int 576 = ''576''" "str_int 420 = ''420''" "str_int 936 = ''936''"
    "str_int 150 = ''150''" "str_int 54 = ''54''"
    by (simp_all add: str_int_def str_nat.simps digit_char_def)
  from optional_badges [OF box anchor keys, of "Some ''+1''" "Some ''''" "Some ''3 lb''"]
  obtain badges where
    b: "build_optional_str ?th (Some ''+1'') (Some '''') (Some ''3 lb'') = Inr (concat badges)"
    and l: "length badges = length (filter truthy [Some ''+1'', Some '''', Some ''3 lb''])"
    and e: \<open>\<forall>i < length badges.
                badge ?th (726 - int i * (150 + 6)) 936 150 54 (651 - int i * (150 + 6)) 972 24
                      (the (filter truthy [Some ''+1'', Some '''', Some ''3 lb''] ! i)) = Inr (badges ! i)
              \<and> (\<exists>rest. badges ! i =
                    ''<g><rect x="'' @ str_int (726 - int i * (150 + 6) - 150) @ ''" y="'' @ str_int 936
                    @ ''" width="'' @ str_int 150 @ ''" height="'' @ str_int 54
                    @ ''" rx="8" ry="8" fill="'' @ rest)\<close>
    by blast
  have l2: "length badges = 2" using l unfolding tr by simp
  from e l2 have e0: \<open>\<exists>rest. badges ! 0 =
                    ''<g><rect x="'' @ str_int (726 - int 0 * (150 + 6) - 150) @ ''" y="'' @ str_int 936
                    @ ''" width="'' @ str_int 150 @ ''" height="'' @ str_int 54
                    @ ''" rx="8" ry="8" fill="'' @ rest\<close>
    by (metis (no_types) zero_less_numeral)
  from e l2 have e1: \<open>\<exists>rest. badges ! 1 =
                    ''<g><rect x="'' @ str_int (726 - int 1 * (150 + 6) - 150) @ ''" y="'' @ str_int 936
                    @ ''" width="'' @ str_int 150 @ ''" height="'' @ str_int 54
                    @ ''" rx="8" ry="8" fill="'' @ rest\<close>
    by (metis (no_types) one_less_numeral_iff semiring_norm(76))
  from e0 have g0: \<open>\<exists>rest. badges ! 0 = ''<g><rect x="576" y="936" width="150" height="54" rx="8" ry="8" fill="'' @ rest\<close>
    by (simp add: num)
  from e1 have g1: \<open>\<exists>rest. badges ! 1 = ''<g><rect x="420" y="936" width="150" height="54" rx="8" ry="8" fill="'' @ rest\<close>
    by (simp add: num)
  from b l2 g0 g1 show ?thesis by blast
qed

subsection \<open>Text wrapping\<close>

text \<open>
  The chunks of a text: they concatenate to the text, none is empty, each is all white
  space or free of it, and a chunk without white space, split on its own, is one chunk
  again. Then the lines: each is made of whole chunks and fits the width or is a single
  chunk, and a line wraps to itself.
\<close>

lemma tw_space_isspace: "tw_space c \<Longrightarrow> py_isspace c"
  by (auto simp: tw_space_def py_isspace_def)

lemma space_tw [simp]: "tw_space (CHR 0x20)"
  by (simp add: tw_space_def)

lemma hyphen_not_space [simp]: "\<not> tw_space (CHR ''-'')" "\<not> py_isspace (CHR ''-'')"
  by (simp_all add: tw_space_def py_isspace_def)

lemma clean_tw: "clean s \<Longrightarrow> c \<in> set s \<Longrightarrow> tw_space c \<longleftrightarrow> c = CHR 0x20"
proof
  assume "clean s" "c \<in> set s" "tw_space c"
  then show "c = CHR 0x20" using tw_space_isspace [of c] unfolding clean_def by blast
next
  assume "c = CHR 0x20"
  then show "tw_space c" by simp
qed

lemma clean_append [simp]: "clean (a @ b) \<longleftrightarrow> clean a \<and> clean b"
  by (auto simp: clean_def)

lemma clean_concat: "clean (concat xs) \<longleftrightarrow> (\<forall>x \<in> set xs. clean x)"
  by (auto simp: clean_def)

lemma set_expandtabs: "set (expandtabs j s) \<subseteq> insert (CHR 0x20) (set s)"
  by (induction s arbitrary: j) auto

lemma expandtabs_id: "CHR 0x09 \<notin> set s \<Longrightarrow> expandtabs j s = s"
  by (induction s arbitrary: j) auto

lemma clean_munge:
  assumes "\<forall>c \<in> set s. py_isspace c \<longrightarrow> tw_space c"
  shows "clean (munge_whitespace s)"
  using assms set_expandtabs [of 0 s] by (auto simp: clean_def munge_whitespace_def)

lemma set_munge: "set (munge_whitespace s) \<subseteq> insert (CHR 0x20) (set s)"
  using set_expandtabs [of 0 s] by (auto simp: munge_whitespace_def)

lemma munge_clean: "clean s \<Longrightarrow> munge_whitespace s = s"
proof -
  assume c: "clean s"
  then have "CHR 0x09 \<notin> set s" by (auto simp: clean_def py_isspace_def)
  then have "expandtabs 0 s = s" by (rule expandtabs_id)
  moreover have "map (\<lambda>c. if tw_space c then CHR 0x20 else c) s = s"
    using c by (induction s) (auto simp: clean_def dest: tw_space_isspace)
  ultimately show ?thesis by (simp add: munge_whitespace_def)
qed

lemma scan_word_hyphen:
  assumes "c = CHR ''-'' \<and> hyphen_break pre cs"
  shows "scan_word pre acc (c # cs) = (rev (c # acc), cs)"
  by (subst scan_word.simps) (simp only: assms if_True simp_thms)

lemma scan_word_stop:
  assumes "\<not> (c = CHR ''-'' \<and> hyphen_break pre cs)"
    and "tw_space c \<or> (punct_behind pre \<and> emdash_ahead (c # cs))"
  shows "scan_word pre acc (c # cs) = (rev acc, c # cs)"
proof (cases "tw_space c")
  case True
  show ?thesis by (subst scan_word.simps) (simp only: assms(1) True if_True if_False)
next
  case False
  with assms(2) have p: "punct_behind pre \<and> emdash_ahead (c # cs)" by blast
  show ?thesis by (subst scan_word.simps) (simp only: assms(1) False p if_True if_False simp_thms)
qed

lemma scan_word_go:
  assumes "\<not> (c = CHR ''-'' \<and> hyphen_break pre cs)"
    and "\<not> tw_space c" and "\<not> (punct_behind pre \<and> emdash_ahead (c # cs))"
  shows "scan_word pre acc (c # cs) = scan_word (c # pre) (c # acc) cs"
  by (subst scan_word.simps) (simp only: assms if_False)

declare scan_word.simps(2) [simp del]

lemma scan_word_split:
  "scan_word pre acc cs = (w, r) \<Longrightarrow>
   \<exists>d. w = rev acc @ d \<and> cs = d @ r \<and> (\<forall>x \<in> set d. \<not> tw_space x)"
proof (induction cs arbitrary: pre acc)
  case Nil
  then show ?case by simp
next
  case (Cons c cs)
  show ?case
  proof (cases "c = CHR ''-'' \<and> hyphen_break pre cs")
    case True
    from Cons.prems have "w = rev acc @ [c]" "r = cs"
      unfolding scan_word_hyphen [OF True] by simp_all
    with True show ?thesis by (intro exI [of _ "[c]"]) simp
  next
    case a: False
    show ?thesis
    proof (cases "tw_space c \<or> (punct_behind pre \<and> emdash_ahead (c # cs))")
      case True
      from Cons.prems have "w = rev acc" "r = c # cs"
        unfolding scan_word_stop [OF a True] by simp_all
      then show ?thesis by (intro exI [of _ "[]"]) simp
    next
      case False
      then have f: "\<not> tw_space c" "\<not> (punct_behind pre \<and> emdash_ahead (c # cs))" by blast+
      from Cons.prems have "scan_word (c # pre) (c # acc) cs = (w, r)"
        unfolding scan_word_go [OF a f] .
      from Cons.IH [OF this] obtain d where
        "w = rev (c # acc) @ d" "cs = d @ r" "\<forall>x \<in> set d. \<not> tw_space x" by blast
      with f(1) show ?thesis by (intro exI [of _ "c # d"]) simp
    qed
  qed
qed

lemma emdash_ahead_hyphen: "emdash_ahead (c # cs) \<Longrightarrow> c = CHR ''-''"
  by (auto simp: emdash_ahead_def split: if_splits)

lemma scan_word_plain:
  "\<forall>x \<in> set cs. \<not> tw_space x \<and> x \<noteq> CHR ''-'' \<Longrightarrow> scan_word pre acc cs = (rev acc @ cs, [])"
proof (induction cs arbitrary: pre acc)
  case Nil
  show ?case by simp
next
  case (Cons c cs)
  then have c: "c \<noteq> CHR ''-''" "\<not> tw_space c" by simp_all
  have "scan_word pre acc (c # cs) = scan_word (c # pre) (c # acc) cs"
    using c emdash_ahead_hyphen [of c cs] by (intro scan_word_go) blast+
  also have "\<dots> = (rev (c # acc) @ cs, [])" using Cons by simp
  finally show ?case by simp
qed

lemma split_from_Nil [simp]: "split_from pre [] = []"
  by (simp add: split_from.simps)

lemma split_from_ws:
  assumes "tw_space c"
  shows "split_from pre (c # cs) =
     takeWhile tw_space (c # cs)
     # split_from (rev (takeWhile tw_space (c # cs)) @ pre) (dropWhile tw_space (c # cs))"
  by (subst split_from.simps) (simp only: assms if_True)

lemma split_from_dash:
  assumes "\<not> tw_space c" "punct_behind pre \<and> emdash_ahead (c # cs)"
  shows "split_from pre (c # cs) =
     takeWhile (\<lambda>c. c = CHR ''-'') (c # cs)
     # split_from (rev (takeWhile (\<lambda>c. c = CHR ''-'') (c # cs)) @ pre)
                  (dropWhile (\<lambda>c. c = CHR ''-'') (c # cs))"
  by (subst split_from.simps) (simp only: assms if_True if_False simp_thms)

lemma split_from_word:
  assumes "\<not> tw_space c" "\<not> (punct_behind pre \<and> emdash_ahead (c # cs))"
    "scan_word (c # pre) [c] cs = (w, r)"
  shows "split_from pre (c # cs) = w # split_from (rev w @ pre) r"
  by (subst split_from.simps) (simp only: assms if_False fst_conv snd_conv)

lemma concat_split_from: "concat (split_from pre s) = s"
proof (induction pre s rule: split_from.induct)
  case (1 pre)
  show ?case by simp
next
  case (2 pre c cs)
  show ?case
  proof (cases "tw_space c")
    case True
    have "concat (split_from pre (c # cs))
          = takeWhile tw_space (c # cs) @ dropWhile tw_space (c # cs)"
      unfolding split_from_ws [OF True] using 2(1) [OF True] by (simp only: concat.simps)
    then show ?thesis by (simp only: takeWhile_dropWhile_id)
  next
    case ws: False
    show ?thesis
    proof (cases "punct_behind pre \<and> emdash_ahead (c # cs)")
      case True
      have "concat (split_from pre (c # cs))
            = takeWhile (\<lambda>c. c = CHR ''-'') (c # cs) @ dropWhile (\<lambda>c. c = CHR ''-'') (c # cs)"
        unfolding split_from_dash [OF ws True] using 2(2) [OF ws True] by (simp only: concat.simps)
      then show ?thesis by (simp only: takeWhile_dropWhile_id)
    next
      case False
      obtain w r where s: "scan_word (c # pre) [c] cs = (w, r)" by force
      from scan_word_split [OF s] obtain d where d: "w = [c] @ d" "cs = d @ r" by auto
      from 2(3) [OF ws False] have "concat (split_from (rev w @ pre) r) = r" by (simp add: s)
      then have "concat (split_from pre (c # cs)) = w @ r"
        unfolding split_from_word [OF ws False s] by (simp only: concat.simps)
      then show ?thesis using d by simp
    qed
  qed
qed

lemma split_from_chunks:
  "c \<in> set (split_from pre s) \<Longrightarrow>
   c \<noteq> [] \<and> ((\<forall>x \<in> set c. tw_space x) \<or> (\<forall>x \<in> set c. \<not> tw_space x))"
proof (induction pre s rule: split_from.induct)
  case (1 pre)
  then show ?case by simp
next
  case (2 pre a cs)
  show ?case
  proof (cases "tw_space a")
    case True
    from 2(4) have "c = takeWhile tw_space (a # cs)
        \<or> c \<in> set (split_from (rev (takeWhile tw_space (a # cs)) @ pre) (dropWhile tw_space (a # cs)))"
      unfolding split_from_ws [OF True] by (simp only: set_ConsD list.set insert_iff)
    then show ?thesis
    proof
      assume e: "c = takeWhile tw_space (a # cs)"
      have "c \<noteq> []" unfolding e using True by simp
      moreover have "\<forall>x \<in> set c. tw_space x" unfolding e by (blast dest: set_takeWhileD)
      ultimately show ?thesis by blast
    next
      assume "c \<in> set (split_from (rev (takeWhile tw_space (a # cs)) @ pre) (dropWhile tw_space (a # cs)))"
      with 2(1) [OF True] show ?thesis by blast
    qed
  next
    case ws: False
    show ?thesis
    proof (cases "punct_behind pre \<and> emdash_ahead (a # cs)")
      case True
      let ?run = "takeWhile (\<lambda>c. c = CHR ''-'') (a # cs)"
      from 2(4) have "c = ?run \<or> c \<in> set (split_from (rev ?run @ pre) (dropWhile (\<lambda>c. c = CHR ''-'') (a # cs)))"
        unfolding split_from_dash [OF ws True] by (simp only: list.set insert_iff)
      then show ?thesis
      proof
        assume c: "c = ?run"
        have "a = CHR ''-''" using True emdash_ahead_hyphen by blast
        then have "c \<noteq> []" using c by simp
        moreover have "\<forall>x \<in> set c. \<not> tw_space x"
        proof
          fix x assume "x \<in> set c"
          then have "x = CHR ''-''" unfolding c by (blast dest: set_takeWhileD)
          then show "\<not> tw_space x" by simp
        qed
        ultimately show ?thesis by blast
      next
        assume "c \<in> set (split_from (rev ?run @ pre) (dropWhile (\<lambda>c. c = CHR ''-'') (a # cs)))"
        with 2(2) [OF ws True] show ?thesis by blast
      qed
    next
      case False
      obtain w r where s: "scan_word (a # pre) [a] cs = (w, r)" by force
      from scan_word_split [OF s] obtain d where
        d: "w = [a] @ d" "cs = d @ r" "\<forall>x \<in> set d. \<not> tw_space x" by auto
      from 2(4) have "c = w \<or> c \<in> set (split_from (rev w @ pre) r)"
        unfolding split_from_word [OF ws False s] by (simp only: list.set insert_iff)
      then show ?thesis
      proof
        assume "c = w"
        then show ?thesis using d ws by auto
      next
        assume "c \<in> set (split_from (rev w @ pre) r)"
        with 2(3) [OF ws False] show ?thesis by (simp add: s)
      qed
    qed
  qed
qed

lemma punct_behind_append: "punct_behind p \<Longrightarrow> punct_behind (p @ p')"
  by (cases p) (simp_all add: punct_behind_def)

lemma punct_behind_Nil [simp]: "\<not> punct_behind []"
  by (simp add: punct_behind_def)

lemma emdash_ahead_append: "emdash_ahead q \<Longrightarrow> emdash_ahead (q @ q')"
proof -
  let ?P = "\<lambda>c. c = CHR ''-''"
  assume a: "emdash_ahead q"
  then have len: "2 \<le> length (takeWhile ?P q)" unfolding emdash_ahead_def by blast
  from a obtain c rest where dr: "dropWhile ?P q = c # rest" and w: "re_word c"
    unfolding emdash_ahead_def by (cases "dropWhile ?P q") simp_all
  have cq: "c \<in> set q" by (metis dr list.set_intros(1) set_dropWhileD)
  have np: "\<not> ?P c" using hd_dropWhile [of ?P q] dr by simp
  have t: "takeWhile ?P (q @ q') = takeWhile ?P q"
    using takeWhile_append1 [of c q ?P q'] cq np by blast
  have d: "dropWhile ?P (q @ q') = dropWhile ?P q @ q'"
    using dropWhile_append1 [of c q ?P q'] cq np by blast
  show ?thesis unfolding emdash_ahead_def t d dr using len w by simp
qed

lemma emdash_ahead_short [simp]: "\<not> emdash_ahead []" "\<not> emdash_ahead [c]"
  by (simp_all add: emdash_ahead_def)

lemma hyphen_break_Nil [simp]: "\<not> hyphen_break pre []"
  by (simp add: hyphen_break_def)

lemma hyphen_break_behind:
  "hyphen_break p q \<Longrightarrow> hyphen_break (p @ p') q"
  unfolding hyphen_break_def
  by (cases p; cases "tl p"; cases "tl (tl p)") auto

lemma hyphen_break_ahead:
  "hyphen_break p q \<Longrightarrow> hyphen_break p (q @ q')"
  unfolding hyphen_break_def
  by (cases q; cases "tl q"; cases "tl (tl q)") auto

lemma hyphen_break_append: "hyphen_break p q \<Longrightarrow> hyphen_break (p @ p') (q @ q')"
  by (blast intro: hyphen_break_behind hyphen_break_ahead)

lemma hyphen_classes [simp]:
  "\<not> re_letter (CHR ''-'')" "\<not> re_word_punct (CHR ''-'')" "\<not> re_word (CHR ''-'')"
  by (simp_all add: re_letter_def re_word_punct_def re_word_def)

lemma hyphen_break_dash [simp]: "\<not> hyphen_break (CHR ''-'' # pre) cs"
  by (simp add: hyphen_break_def split: list.splits)

lemma punct_behind_dash [simp]: "\<not> punct_behind (CHR ''-'' # pre)"
  by (simp add: punct_behind_def)

lemma scan_word_isolated:
  "scan_word (pre @ m) acc (d @ r) = (rev acc @ d, r) \<Longrightarrow> scan_word pre acc d = (rev acc @ d, [])"
proof (induction d arbitrary: pre acc)
  case Nil
  show ?case by simp
next
  case (Cons c d)
  let ?cs = "d @ r"
  from Cons.prems have P: "scan_word (pre @ m) acc (c # ?cs) = (rev acc @ c # d, r)" by simp
  show ?case
  proof (cases "c = CHR ''-'' \<and> hyphen_break (pre @ m) ?cs")
    case True
    from P have "rev (c # acc) = rev acc @ c # d" unfolding scan_word_hyphen [OF True] by simp
    then have d: "d = []" by simp
    have "scan_word pre acc [c] = scan_word (c # pre) (c # acc) []"
      by (rule scan_word_go) (use True in simp_all)
    then show ?thesis by (simp add: d)
  next
    case a: False
    show ?thesis
    proof (cases "tw_space c \<or> (punct_behind (pre @ m) \<and> emdash_ahead (c # ?cs))")
      case True
      from P have "rev acc = rev acc @ c # d" unfolding scan_word_stop [OF a True] by simp
      then show ?thesis by simp
    next
      case False
      then have f: "\<not> tw_space c" "\<not> (punct_behind (pre @ m) \<and> emdash_ahead (c # ?cs))" by blast+
      from P have "scan_word ((c # pre) @ m) (c # acc) (d @ r) = (rev (c # acc) @ d, r)"
        unfolding scan_word_go [OF a f] by simp
      from Cons.IH [OF this] have ih: "scan_word (c # pre) (c # acc) d = (rev (c # acc) @ d, [])" .
      have 1: "\<not> (c = CHR ''-'' \<and> hyphen_break pre d)"
        using a hyphen_break_append [of pre d m r] by blast
      have 2: "\<not> (punct_behind pre \<and> emdash_ahead (c # d))"
        using f(2) punct_behind_append [of pre m] emdash_ahead_append [of "c # d" r] by auto
      have "scan_word pre acc (c # d) = scan_word (c # pre) (c # acc) d"
        by (rule scan_word_go [OF 1 f(1) 2])
      with ih show ?thesis by simp
    qed
  qed
qed

lemma scan_word_dashes:
  "\<forall>x \<in> set cs. x = CHR ''-'' \<Longrightarrow>
   scan_word (CHR ''-'' # pre) acc cs = (rev acc @ cs, [])"
proof (induction cs arbitrary: pre acc)
  case Nil
  show ?case by simp
next
  case (Cons c cs)
  then have c: "c = CHR ''-''" by simp
  have "scan_word (CHR ''-'' # pre) acc (c # cs) = scan_word (c # CHR ''-'' # pre) (c # acc) cs"
    by (rule scan_word_go) (simp_all add: c)
  also have "\<dots> = (rev (c # acc) @ cs, [])" unfolding c using Cons by simp
  finally show ?case by simp
qed

lemma split_from_single_word:
  assumes "\<not> tw_space a" "scan_word [a] [a] d = (a # d, [])"
  shows "split_from [] (a # d) = [a # d]"
  using split_from_word [OF assms(1) _ assms(2)] by simp

lemma split_from_isolated:
  "c \<in> set (split_from pre s) \<Longrightarrow> \<forall>x \<in> set c. \<not> tw_space x \<Longrightarrow> split_from [] c = [c]"
proof (induction pre s rule: split_from.induct)
  case (1 pre)
  then show ?case by simp
next
  case (2 pre a cs)
  show ?case
  proof (cases "tw_space a")
    case True
    from 2(4) have "c = takeWhile tw_space (a # cs)
        \<or> c \<in> set (split_from (rev (takeWhile tw_space (a # cs)) @ pre) (dropWhile tw_space (a # cs)))"
      unfolding split_from_ws [OF True] by (simp only: list.set insert_iff)
    then show ?thesis
    proof
      assume e: "c = takeWhile tw_space (a # cs)"
      then have "a \<in> set c" using True by simp
      with 2(5) True show ?thesis by blast
    next
      assume "c \<in> set (split_from (rev (takeWhile tw_space (a # cs)) @ pre) (dropWhile tw_space (a # cs)))"
      with 2(1) [OF True] 2(5) show ?thesis by blast
    qed
  next
    case ws: False
    show ?thesis
    proof (cases "punct_behind pre \<and> emdash_ahead (a # cs)")
      case True
      let ?run = "takeWhile (\<lambda>c. c = CHR ''-'') (a # cs)"
      from 2(4) have "c = ?run \<or> c \<in> set (split_from (rev ?run @ pre) (dropWhile (\<lambda>c. c = CHR ''-'') (a # cs)))"
        unfolding split_from_dash [OF ws True] by (simp only: list.set insert_iff)
      then show ?thesis
      proof
        assume c: "c = ?run"
        have a: "a = CHR ''-''" using True emdash_ahead_hyphen by blast
        define d where "d = takeWhile (\<lambda>c. c = CHR ''-'') cs"
        have cd: "c = CHR ''-'' # d" unfolding c d_def using a by simp
        have "\<forall>x \<in> set d. x = CHR ''-''" unfolding d_def by (blast dest: set_takeWhileD)
        then have "scan_word [CHR ''-''] [CHR ''-''] d = (CHR ''-'' # d, [])"
          using scan_word_dashes [where cs = d and pre = "[]" and acc = "[CHR ''-'']"] by simp
        then show ?thesis unfolding cd by (intro split_from_single_word) simp_all
      next
        assume "c \<in> set (split_from (rev ?run @ pre) (dropWhile (\<lambda>c. c = CHR ''-'') (a # cs)))"
        with 2(2) [OF ws True] 2(5) show ?thesis by blast
      qed
    next
      case False
      obtain w r where s: "scan_word (a # pre) [a] cs = (w, r)" by force
      from scan_word_split [OF s] obtain d where
        d: "w = [a] @ d" "cs = d @ r" by auto
      from 2(4) have "c = w \<or> c \<in> set (split_from (rev w @ pre) r)"
        unfolding split_from_word [OF ws False s] by (simp only: list.set insert_iff)
      then show ?thesis
      proof
        assume cw: "c = w"
        have "scan_word ([a] @ pre) [a] (d @ r) = (rev [a] @ d, r)" using s d by simp
        from scan_word_isolated [OF this] have "scan_word [a] [a] d = (a # d, [])" by simp
        then show ?thesis unfolding cw d(1) using ws by (simp add: split_from_single_word)
      next
        assume "c \<in> set (split_from (rev w @ pre) r)"
        with 2(3) [OF ws False] 2(5) show ?thesis by (simp add: s)
      qed
    qed
  qed
qed

lemma dropWhile_hd: "xs \<noteq> [] \<Longrightarrow> \<not> P (hd xs) \<Longrightarrow> dropWhile P xs = xs"
  by (cases xs) simp_all

lemma py_strip_empty:
  assumes "\<forall>x \<in> set s. py_isspace x"
  shows "py_strip s = []"
proof -
  have h: "dropWhile py_isspace s = []" using assms by (simp only: dropWhile_eq_Nil_conv)
  show ?thesis by (simp only: py_strip_def h rev.simps dropWhile.simps)
qed

lemma py_strip_nonempty:
  assumes "x \<in> set s" "\<not> py_isspace x"
  shows "py_strip s \<noteq> []"
proof -
  let ?d = "dropWhile py_isspace s"
  have ne: "?d \<noteq> []" using assms by (auto simp: dropWhile_eq_Nil_conv)
  then have "\<not> py_isspace (hd ?d)" by (rule hd_dropWhile)
  moreover have "hd ?d \<in> set (rev ?d)" using ne by simp
  ultimately have "dropWhile py_isspace (rev ?d) \<noteq> []"
    by (auto simp: dropWhile_eq_Nil_conv)
  then show ?thesis by (simp add: py_strip_def)
qed

lemma set_replace_char: "set (replace_char c r s) \<subseteq> set s \<union> set r"
  by (auto simp: replace_char_def split: if_splits)

lemma replace_char_Nil_iff: "r \<noteq> [] \<Longrightarrow> replace_char c r s = [] \<longleftrightarrow> s = []"
  by (cases s) (auto simp: replace_char_def)

lemma plain_word_replace_char:
  assumes "plain_word s" "plain_word r"
  shows "plain_word (replace_char c r s)"
proof -
  have "replace_char c r s \<noteq> []" using assms by (simp add: replace_char_Nil_iff plain_word_def)
  moreover have "\<forall>x \<in> set (replace_char c r s). \<not> py_isspace x \<and> x \<noteq> CHR ''-''"
    using set_replace_char [of c r s] assms unfolding plain_word_def by blast
  ultimately show ?thesis unfolding plain_word_def by blast
qed

lemma plain_word_xml_escape: "plain_word s \<Longrightarrow> plain_word (xml_escape s)"
  unfolding xml_escape_def
  by (intro plain_word_replace_char) (simp_all add: plain_word_def py_isspace_def)

lemma split_nl_single: "CHR 0x0A \<notin> set s \<Longrightarrow> split_nl s = [s]"
  by (induction s) auto

lemma plain_word_split_from:
  assumes "plain_word s"
  shows "split_from [] s = [s]"
proof -
  from assms obtain a d where s: "s = a # d" by (cases s) (auto simp: plain_word_def)
  have na: "\<not> tw_space a" using assms tw_space_isspace [of a] by (auto simp: plain_word_def s)
  have "\<forall>x \<in> set d. \<not> tw_space x \<and> x \<noteq> CHR ''-''"
    using assms tw_space_isspace by (auto simp: plain_word_def s)
  then have sw: "scan_word [a] [a] d = (a # d, [])"
    using scan_word_plain [of d "[a]" "[a]"] by simp
  have "split_from [] (a # d) = (a # d) # split_from (rev (a # d) @ []) []"
    by (rule split_from_word [OF na _ sw]) simp
  then show ?thesis by (simp add: s)
qed

lemma plain_word_clean: "plain_word s \<Longrightarrow> clean s"
  by (auto simp: plain_word_def clean_def)

lemma plain_word_split_chunks: "plain_word s \<Longrightarrow> split_chunks s = [s]"
  by (simp add: split_chunks_def munge_clean plain_word_clean plain_word_split_from)

lemma plain_word_strip: "plain_word s \<Longrightarrow> py_strip s \<noteq> []"
proof -
  assume a: "plain_word s"
  then obtain x where "x \<in> set s" "\<not> py_isspace x" by (cases s) (auto simp: plain_word_def)
  then show ?thesis by (rule py_strip_nonempty)
qed

lemma take_line_single:
  assumes "py_strip c \<noteq> []"
  shows "take_line w hl [c] = ([c], [])"
proof (cases "py_len c \<le> w")
  case True
  then have "fill_line w 0 [] [c] = ([c], [])" by simp
  then show ?thesis using assms by (simp add: take_line_def)
next
  case False
  then have "fill_line w 0 [] [c] = ([], [c])" by simp
  then show ?thesis using assms False by (simp add: take_line_def)
qed

lemma wrap_chunks_Nil [simp]: "wrap_chunks w lines [] = lines"
  by (subst wrap_chunks.simps) simp

lemma wrap_chunks_single:
  assumes "py_strip c \<noteq> []"
  shows "wrap_chunks w [] [c] = [c]"
  by (subst wrap_chunks.simps) (simp add: take_line_single [OF assms])

lemma wrap_lines_plain_word:
  assumes "plain_word word" "0 < w"
  shows "wrap_lines (TStr word) w = Inr [xml_escape word]"
proof -
  let ?e = "xml_escape word"
  have s: "plain_word ?e" using assms(1) by (rule plain_word_xml_escape)
  then have "CHR 0x0A \<notin> set ?e" by (auto simp: plain_word_def py_isspace_def)
  then have sp: "split_nl ?e = [?e]" by (rule split_nl_single)
  have tw: "textwrap_wrap ?e w = Inr [?e]"
    using assms(2) by (simp add: textwrap_wrap_def plain_word_split_chunks [OF s] wrap_chunks_single [OF plain_word_strip [OF s]])
  show ?thesis
    by (simp add: wrap_lines_def text_of_def sp plain_word_strip [OF s] tw)
qed

lemma para_loop_lines:
  assumes "0 < w"
  shows "para_loop w paras lines =
           Inr (lines @ concat (map (\<lambda>para. if py_strip para = [] then [[]]
                                            else wrap_chunks (nat w) [] (split_chunks para)) paras))"
  using assms by (induction paras arbitrary: lines) (simp_all add: textwrap_wrap_def)

lemma tspan_entries_nth:
  "i < length lines \<Longrightarrow>
   tspan_entries lh y lines ! i
     = ((if i = 0 then y else if lines ! (i - 1) = [] then lh + lh else lh), lines ! i)"
proof (induction lines arbitrary: i y)
  case Nil
  then show ?case by simp
next
  case (Cons t lines)
  show ?case
  proof (cases i)
    case 0
    then show ?thesis by simp
  next
    case (Suc j)
    then have "j < length lines" using Cons.prems by simp
    from Cons.IH [OF this, of "if t = [] then lh + lh else lh"]
    show ?thesis unfolding Suc by (cases j) simp_all
  qed
qed

lemma length_tspan_entries [simp]: "length (tspan_entries lh y lines) = length lines"
  by (induction lines arbitrary: y) simp_all

lemma py_len_append [simp]: "py_len (a @ b) = py_len a + py_len b"
  by (simp add: py_len_def)

lemma py_len_Nil [simp]: "py_len [] = 0"
  by (simp add: py_len_def)

lemma py_len_concat: "py_len (concat xs) = sum_list (map py_len xs)"
  by (induction xs) simp_all

lemma fill_line_split:
  "fill_line w n cur chunks = (l, r) \<Longrightarrow>
   \<exists>taken. l = cur @ taken \<and> chunks = taken @ r
          \<and> (taken \<noteq> [] \<longrightarrow> n + sum_list (map py_len taken) \<le> w)"
proof (induction chunks arbitrary: n cur)
  case Nil
  then show ?case by simp
next
  case (Cons c chunks)
  show ?case
  proof (cases "n + py_len c \<le> w")
    case True
    with Cons.prems have "fill_line w (n + py_len c) (cur @ [c]) chunks = (l, r)" by simp
    from Cons.IH [OF this] obtain taken where
      t: "l = (cur @ [c]) @ taken" "chunks = taken @ r"
         "taken \<noteq> [] \<longrightarrow> n + py_len c + sum_list (map py_len taken) \<le> w"
      by blast
    show ?thesis
      using t True by (intro exI [of _ "c # taken"]) (cases "taken = []"; simp)
  next
    case False
    with Cons.prems have "l = cur" "r = c # chunks" by simp_all
    then show ?thesis by (intro exI [of _ "[]"]) simp
  qed
qed

lemma fill_line_all:
  "n + sum_list (map py_len chunks) \<le> w \<Longrightarrow> fill_line w n cur chunks = (cur @ chunks, [])"
  by (induction chunks arbitrary: n cur) (simp_all add: add.assoc)

lemma alt_append: "alt (xs @ ys) \<Longrightarrow> alt xs \<and> alt ys"
proof (induction xs rule: alt.induct)
  case 1
  then show ?case by simp
next
  case (2 c)
  then show ?case by (cases ys) simp_all
next
  case (3 c d cs)
  then show ?case by simp
qed

lemma alt_snoc: "alt (xs @ [b]) \<Longrightarrow> xs \<noteq> [] \<Longrightarrow> py_strip b = [] \<Longrightarrow> py_strip (last xs) \<noteq> []"
proof (induction xs rule: alt.induct)
  case 1
  then show ?case by simp
next
  case (2 c)
  then show ?case by simp
next
  case (3 c d cs)
  then show ?case by simp
qed

lemma take_line_unfold:
  assumes f: "fill_line w 0 [] (if py_strip (hd chunks) = [] \<and> hl then tl chunks else chunks) = (l2, r2)"
    and long: "long = (r2 \<noteq> [] \<and> w < py_len (hd r2) \<and> l2 = [])"
    and cur3: "cur3 = (if long then [hd r2] else l2)"
    and r3: "r3 = (if long then tl r2 else r2)"
    and strip: "strip = (cur3 \<noteq> [] \<and> py_strip (last cur3) = [])"
  shows "take_line w hl chunks = ((if strip then butlast cur3 else cur3), r3)"
proof (cases long)
  case True
  then have c: "(r2 \<noteq> [] \<and> w < py_len (hd r2) \<and> l2 = []) = True" using long by simp
  have "cur3 = [hd r2]" "r3 = tl r2" using True cur3 r3 by simp_all
  then show ?thesis
    unfolding take_line_def Let_def f prod.case c strip by (simp only: if_True prod.case)
next
  case False
  then have c: "(r2 \<noteq> [] \<and> w < py_len (hd r2) \<and> l2 = []) = False" using long by simp
  have "cur3 = l2" "r3 = r2" using False cur3 r3 by simp_all
  then show ?thesis
    unfolding take_line_def Let_def f prod.case c strip by (simp only: if_False prod.case)
qed

lemma take_line_split:
  assumes ne: "chunks \<noteq> []" and alt: "alt chunks"
    and tl: "take_line w hl chunks = (cur, rest)"
  shows "\<exists>dropped trail.
           chunks = dropped @ cur @ trail @ rest
         \<and> (\<forall>c \<in> set (dropped @ trail). py_strip c = [])
         \<and> (cur \<noteq> [] \<longrightarrow>
               py_strip (last cur) \<noteq> []
             \<and> (sum_list (map py_len cur) \<le> w \<or> (\<exists>c. cur = [c])))"
proof -
  define chunks1 where
    "chunks1 = (if py_strip (hd chunks) = [] \<and> hl then tl chunks else chunks)"
  define dropped where
    "dropped = (if py_strip (hd chunks) = [] \<and> hl then [hd chunks] else [])"
  have c1: "chunks = dropped @ chunks1" and db: "\<forall>c \<in> set dropped. py_strip c = []"
    using ne by (auto simp: chunks1_def dropped_def)
  obtain l2 r2 where f: "fill_line w 0 [] chunks1 = (l2, r2)" by force
  from fill_line_split [OF f] have s2: "chunks1 = l2 @ r2"
    and b2: "sum_list (map py_len l2) \<le> w" by (cases "l2 = []"; auto)+
  define long where "long \<longleftrightarrow> r2 \<noteq> [] \<and> w < py_len (hd r2) \<and> l2 = []"
  define cur3 where "cur3 = (if long then [hd r2] else l2)"
  define r3 where "r3 = (if long then tl r2 else r2)"
  have s3: "chunks1 = cur3 @ r3"
    using s2 by (auto simp: cur3_def r3_def long_def)
  have b3: "sum_list (map py_len cur3) \<le> w \<or> (\<exists>c. cur3 = [c])"
    using b2 by (auto simp: cur3_def long_def)
  define strip where "strip \<longleftrightarrow> cur3 \<noteq> [] \<and> py_strip (last cur3) = []"
  have eq: "take_line w hl chunks = ((if strip then butlast cur3 else cur3), r3)"
    by (rule take_line_unfold [OF f [unfolded chunks1_def] long_def cur3_def r3_def strip_def])
  have res: "cur = (if strip then butlast cur3 else cur3)" "rest = r3"
    using tl unfolding eq by simp_all
  define trail where "trail = (if strip then [last cur3] else [])"
  have s4: "cur3 = cur @ trail" and tb: "\<forall>c \<in> set trail. py_strip c = []"
    by (auto simp: res trail_def strip_def)
  have a3: "alt cur3" using alt unfolding c1 s3 by (blast dest: alt_append)
  have good: "cur \<noteq> [] \<longrightarrow> py_strip (last cur) \<noteq> []"
  proof (cases strip)
    case True
    define b where "b = last cur3"
    have pb: "py_strip b = []" using True by (simp add: strip_def b_def)
    have "cur @ [b] = cur3" using True by (simp add: res strip_def b_def)
    with a3 have ab: "alt (cur @ [b])" by simp
    show ?thesis
    proof
      assume "cur \<noteq> []"
      from alt_snoc [OF ab this pb] show "py_strip (last cur) \<noteq> []" .
    qed
  next
    case False
    show ?thesis
    proof
      assume cn: "cur \<noteq> []"
      have "cur = cur3" using False by (simp add: res)
      with cn False show "py_strip (last cur) \<noteq> []" by (simp add: strip_def)
    qed
  qed
  have bound: "cur \<noteq> [] \<longrightarrow> sum_list (map py_len cur) \<le> w \<or> (\<exists>c. cur = [c])"
  proof (cases strip)
    case True
    define b where "b = last cur3"
    have e: "cur3 = cur @ [b]" using True by (simp add: res strip_def b_def)
    show ?thesis
    proof
      assume cn: "cur \<noteq> []"
      then have "\<not> (\<exists>c. cur3 = [c])" unfolding e by simp
      with b3 have "sum_list (map py_len cur3) \<le> w" by blast
      then have "sum_list (map py_len cur) \<le> w" unfolding e by simp
      then show "sum_list (map py_len cur) \<le> w \<or> (\<exists>c. cur = [c])" ..
    qed
  next
    case False
    then have "cur = cur3" by (simp add: res)
    with b3 show ?thesis by simp
  qed
  have dec: "chunks = dropped @ cur @ trail @ rest" using c1 s3 s4 res(2) by simp
  have bl: "\<forall>c \<in> set (dropped @ trail). py_strip c = []" using db tb by auto
  from dec bl good bound show ?thesis by blast
qed

lemma alt_Cons:
  "alt (x # xs) \<longleftrightarrow> (xs \<noteq> [] \<longrightarrow> \<not> (py_strip x = [] \<and> py_strip (hd xs) = [])) \<and> alt xs"
  by (cases xs) simp_all

lemma clean_not_space:
  assumes "clean s" "c \<in> set s" "\<not> tw_space c"
  shows "\<not> py_isspace c"
proof -
  from assms(1,2) have "c = CHR 0x20 \<or> \<not> py_isspace c" unfolding clean_def by blast
  moreover have "c \<noteq> CHR 0x20" using assms(3) space_tw by blast
  ultimately show ?thesis by blast
qed

lemma clean_suffix: "clean (a @ b) \<Longrightarrow> clean b"
  by simp

lemma clean_dropWhile: "clean s \<Longrightarrow> clean (dropWhile P s)"
  using set_dropWhileD [of _ P s] unfolding clean_def by blast

lemma hd_split_from:
  assumes "\<not> tw_space a"
  shows "a \<in> set (hd (split_from pre (a # cs)))"
proof (cases "punct_behind pre \<and> emdash_ahead (a # cs)")
  case True
  then have "a = CHR ''-''" using emdash_ahead_hyphen by blast
  then show ?thesis unfolding split_from_dash [OF assms True] by simp
next
  case False
  obtain w r where s: "scan_word (a # pre) [a] cs = (w, r)" by force
  from scan_word_split [OF s] obtain d where "w = [a] @ d" by auto
  then show ?thesis unfolding split_from_word [OF assms False s] by simp
qed

lemma split_from_ne: "s \<noteq> [] \<Longrightarrow> split_from pre s \<noteq> []"
  by (cases s) (simp_all add: split_from.simps)

lemma alt_step:
  assumes "alt rest" "py_strip c \<noteq> [] \<or> (rest \<noteq> [] \<longrightarrow> py_strip (hd rest) \<noteq> [])"
  shows "alt (c # rest)"
  using assms unfolding alt_Cons by blast

lemma alt_split_from: "clean s \<Longrightarrow> alt (split_from pre s)"
proof (induction pre s rule: split_from.induct)
  case (1 pre)
  show ?case by simp
next
  case (2 pre c cs)
  show ?case
  proof (cases "tw_space c")
    case True
    let ?run = "takeWhile tw_space (c # cs)"
    let ?rest = "dropWhile tw_space (c # cs)"
    have cl: "clean ?rest" using 2(4) by (rule clean_dropWhile)
    have a: "alt (split_from (rev ?run @ pre) ?rest)" using 2(1) [OF True cl] .
    have h: "split_from (rev ?run @ pre) ?rest \<noteq> [] \<longrightarrow>
             py_strip (hd (split_from (rev ?run @ pre) ?rest)) \<noteq> []"
    proof (cases ?rest)
      case Nil
      then show ?thesis by (simp only: split_from_Nil simp_thms)
    next
      case (Cons b bs)
      have nb: "\<not> tw_space b" using hd_dropWhile [of tw_space "c # cs"] Cons by simp
      have bin: "b \<in> set (c # cs)" using set_dropWhileD [of b tw_space "c # cs"] Cons by simp
      have "\<not> py_isspace b" using clean_not_space [OF 2(4) bin nb] .
      with hd_split_from [OF nb, of "rev ?run @ pre" bs]
      have "py_strip (hd (split_from (rev ?run @ pre) (b # bs))) \<noteq> []"
        by (rule py_strip_nonempty)
      then show ?thesis unfolding Cons by simp
    qed
    show ?thesis unfolding split_from_ws [OF True] by (rule alt_step [OF a disjI2 [OF h]])
  next
    case ws: False
    have cin: "c \<in> set (c # cs)" by simp
    have nc: "\<not> py_isspace c" using clean_not_space [OF 2(4) cin ws] .
    have first: "py_strip (hd (split_from pre (c # cs))) \<noteq> []"
      using hd_split_from [OF ws, of pre cs] nc by (rule py_strip_nonempty)
    show ?thesis
    proof (cases "punct_behind pre \<and> emdash_ahead (c # cs)")
      case True
      let ?run = "takeWhile (\<lambda>c. c = CHR ''-'') (c # cs)"
      let ?rest = "dropWhile (\<lambda>c. c = CHR ''-'') (c # cs)"
      have cl: "clean ?rest" using 2(4) by (rule clean_dropWhile)
      have a: "alt (split_from (rev ?run @ pre) ?rest)" using 2(2) [OF ws True cl] .
      have nb: "py_strip ?run \<noteq> []"
        using first unfolding split_from_dash [OF ws True] list.sel .
      show ?thesis unfolding split_from_dash [OF ws True] by (rule alt_step [OF a disjI1 [OF nb]])
    next
      case False
      obtain w r where s: "scan_word (c # pre) [c] cs = (w, r)" by force
      from scan_word_split [OF s] obtain d where d: "w = [c] @ d" "cs = d @ r" by auto
      have cl: "clean r" using 2(4) unfolding d(2) by (simp add: clean_def)
      have a: "alt (split_from (rev w @ pre) r)" using 2(3) [OF ws False] cl by (simp add: s)
      have nb: "py_strip w \<noteq> []"
        using first unfolding split_from_word [OF ws False s] list.sel .
      show ?thesis unfolding split_from_word [OF ws False s] by (rule alt_step [OF a disjI1 [OF nb]])
    qed
  qed
qed

lemma good_line_mono: "good_line w a l \<Longrightarrow> set a \<subseteq> set b \<Longrightarrow> good_line w b l"
  unfolding good_line_def by blast

lemma wrap_chunks_step:
  assumes "chunks \<noteq> []" "take_line w (lines \<noteq> []) chunks = (cur, rest)"
  shows "wrap_chunks w lines chunks
           = wrap_chunks w (if cur \<noteq> [] then lines @ [concat cur] else lines) rest"
  by (subst wrap_chunks.simps) (simp only: assms if_False Let_def prod.case)

lemma wrap_chunks_lines:
  "alt chunks \<Longrightarrow>
   \<exists>new. wrap_chunks w lines chunks = lines @ new
        \<and> (\<forall>l \<in> set new. good_line w chunks l)
        \<and> (lines = [] \<and> (\<exists>c \<in> set chunks. py_strip c \<noteq> []) \<longrightarrow> new \<noteq> [])"
proof (induction w lines chunks rule: wrap_chunks.induct)
  case (1 w lines chunks)
  show ?case
  proof (cases "chunks = []")
    case True
    then show ?thesis by (intro exI [of _ "[]"]) simp
  next
    case False
    obtain cur rest where t: "take_line w (lines \<noteq> []) chunks = (cur, rest)" by force
    from take_line_split [OF False 1(2) t] obtain dropped trail where
      dec: "chunks = dropped @ cur @ trail @ rest"
      and bl: "\<forall>c \<in> set (dropped @ trail). py_strip c = []"
      and g: "cur \<noteq> [] \<longrightarrow> py_strip (last cur) \<noteq> []
                \<and> (sum_list (map py_len cur) \<le> w \<or> (\<exists>c. cur = [c]))"
      by blast
    have "alt ((dropped @ cur @ trail) @ rest)" using 1(2) dec by simp
    then have ar: "alt rest" by (blast dest: alt_append)
    have "set chunks = set dropped \<union> set cur \<union> set trail \<union> set rest"
      by (subst dec) auto
    then have sub: "set rest \<subseteq> set chunks" "set cur \<subseteq> set chunks"
      by blast+
    let ?lines = "if cur \<noteq> [] then lines @ [concat cur] else lines"
    have step: "wrap_chunks w lines chunks = wrap_chunks w ?lines rest"
      using False t by (rule wrap_chunks_step)
    from 1(1) [OF False refl t [symmetric] ar] obtain new where
      n1: "wrap_chunks w ?lines rest = ?lines @ new"
      and n2: "\<forall>l \<in> set new. good_line w rest l"
      and n3: "?lines = [] \<and> (\<exists>c \<in> set rest. py_strip c \<noteq> []) \<longrightarrow> new \<noteq> []"
      by blast
    have n2': "\<forall>l \<in> set new. good_line w chunks l"
      using n2 sub(1) by (blast intro: good_line_mono)
    show ?thesis
    proof (cases "cur = []")
      case True
      have e: "wrap_chunks w lines chunks = lines @ new" using step n1 True by simp
      have "new \<noteq> []" if a: "lines = []" "\<exists>c \<in> set chunks. py_strip c \<noteq> []"
      proof -
        from a(2) obtain c where c: "c \<in> set chunks" "py_strip c \<noteq> []" by blast
        have "set chunks = set (dropped @ trail) \<union> set rest"
          by (subst dec) (auto simp: True)
        with c bl have "c \<in> set rest" by blast
        with c(2) n3 a(1) True show ?thesis by auto
      qed
      with e n2' show ?thesis by blast
    next
      case False
      have e: "wrap_chunks w lines chunks = lines @ (concat cur # new)"
        using step n1 False by simp
      have "good_line w chunks (concat cur)"
        unfolding good_line_def using g False sub(2) by blast
      with n2' have "\<forall>l \<in> set (concat cur # new). good_line w chunks l" by simp
      with e show ?thesis by blast
    qed
  qed
qed

lemma last_concat:
  "xs \<noteq> [] \<Longrightarrow> last xs \<noteq> [] \<Longrightarrow> last (concat xs) = last (last xs)"
  by (induction xs) (auto simp: last_append)

lemma split_from_nonempty_chunks: "c \<in> set (split_from pre s) \<Longrightarrow> c \<noteq> []"
  using split_from_chunks by blast

lemma rewrap_line:
  assumes cl: "clean l" and ne: "l \<noteq> []" and la: "\<not> py_isspace (last l)"
    and fit: "py_len l \<le> w \<or> split_from [] l = [l]"
  shows "wrap_chunks w [] (split_chunks l) = [l]"
proof -
  have sc: "split_chunks l = split_from [] l" by (simp add: split_chunks_def munge_clean [OF cl])
  have nb: "py_strip l \<noteq> []"
    using py_strip_nonempty [of "last l" l] ne la by simp
  show ?thesis
  proof (cases "split_from [] l = [l]")
    case True
    show ?thesis unfolding sc True using nb by (rule wrap_chunks_single)
  next
    case False
    with fit have len: "py_len l \<le> w" by blast
    let ?cs = "split_from [] l"
    have cc: "concat ?cs = l" by (rule concat_split_from)
    have cne: "?cs \<noteq> []" using ne by (rule split_from_ne)
    have lne: "last ?cs \<noteq> []" using cne split_from_nonempty_chunks [of "last ?cs" "[]" l] by simp
    have "last l = last (last ?cs)" using last_concat [OF cne lne] cc by simp
    then have "last (last ?cs) \<in> set (last ?cs)" "\<not> py_isspace (last (last ?cs))"
      using lne la by simp_all
    then have lb: "py_strip (last ?cs) \<noteq> []" by (rule py_strip_nonempty)
    have "sum_list (map py_len ?cs) = py_len l" using py_len_concat [of ?cs] cc by simp
    then have "0 + sum_list (map py_len ?cs) \<le> w" using len by simp
    then have f: "fill_line w 0 [] ?cs = ([] @ ?cs, [])" by (rule fill_line_all)
    have f': "fill_line w 0 [] (if py_strip (hd ?cs) = [] \<and> False then tl ?cs else ?cs) = (?cs, [])"
      using f by simp
    have t: "take_line w False ?cs = ((if False then butlast ?cs else ?cs), [])"
      by (rule take_line_unfold [OF f', where long = False]) (simp_all add: cne lb)
    have "wrap_chunks w [] ?cs = wrap_chunks w (if ?cs \<noteq> [] then [] @ [concat ?cs] else []) []"
      by (rule wrap_chunks_step [OF cne]) (simp add: t)
    then show ?thesis unfolding sc using cne cc by simp
  qed
qed

lemma replace_char_id: "c \<notin> set s \<Longrightarrow> replace_char c r s = s"
  by (induction s) (auto simp: replace_char_def)

lemma xml_escape_id:
  assumes "CHR ''&'' \<notin> set s" "CHR ''<'' \<notin> set s" "CHR ''>'' \<notin> set s"
  shows "xml_escape s = s"
  using assms by (simp add: xml_escape_def replace_char_id)

lemma split_nl_ne [simp]: "split_nl s \<noteq> []"
  by (induction s) (auto split: list.splits)

lemma split_nl_set: "p \<in> set (split_nl s) \<Longrightarrow> set p \<subseteq> set s"
proof (induction s arbitrary: p)
  case Nil
  then show ?case by simp
next
  case (Cons c cs)
  show ?case
  proof (cases "c = CHR 0x0A")
    case True
    with Cons.prems have "p = [] \<or> p \<in> set (split_nl cs)" by simp
    with Cons.IH show ?thesis by auto
  next
    case False
    obtain q qs where q: "split_nl cs = q # qs" using split_nl_ne [of cs] by (cases "split_nl cs") auto
    with Cons.prems False have "p = c # q \<or> p \<in> set qs" by simp
    then show ?thesis
    proof
      assume "p = c # q"
      moreover have "set q \<subseteq> set cs" using Cons.IH [of q] q by simp
      ultimately show ?thesis by auto
    next
      assume "p \<in> set qs"
      then have "set p \<subseteq> set cs" using Cons.IH [of p] q by simp
      then show ?thesis by auto
    qed
  qed
qed

lemma split_nl_line: "CHR 0x0A \<notin> set l \<Longrightarrow> split_nl (l @ CHR 0x0A # s) = l # split_nl s"
  by (induction l) auto

lemma split_nl_join:
  assumes "lines \<noteq> []" "\<forall>l \<in> set lines. CHR 0x0A \<notin> set l"
  shows "split_nl (py_join [CHR 0x0A] lines) = lines"
  using assms
proof (induction "[CHR 0x0A]" lines rule: py_join.induct)
  case 1
  then show ?case by simp
next
  case (2 x)
  then show ?case by (simp add: split_nl_single)
next
  case (3 x y ys)
  then have "split_nl (py_join [CHR 0x0A] (y # ys)) = y # ys" by simp
  moreover have "CHR 0x0A \<notin> set x" using 3 by simp
  ultimately show ?case by (simp add: split_nl_line)
qed

lemma set_py_join: "set (py_join sep xs) \<subseteq> set sep \<union> \<Union> (set ` set xs)"
  by (induction sep xs rule: py_join.induct) auto

lemma expandtabs_keeps: "x \<in> set s \<Longrightarrow> x \<noteq> CHR 0x09 \<Longrightarrow> x \<in> set (expandtabs j s)"
  by (induction s arbitrary: j) auto

lemma munge_keeps:
  assumes "x \<in> set s" "\<not> tw_space x"
  shows "x \<in> set (munge_whitespace s)"
proof -
  have "x \<noteq> CHR 0x09" using assms(2) by (auto simp: tw_space_def)
  with assms(1) have "x \<in> set (expandtabs 0 s)" by (rule expandtabs_keeps)
  then have "(if tw_space x then CHR 0x20 else x) \<in> set (munge_whitespace s)"
    unfolding munge_whitespace_def by (simp only: set_map) (rule imageI)
  with assms(2) show ?thesis by simp
qed

lemma clean_subset: "clean m \<Longrightarrow> set l \<subseteq> set m \<Longrightarrow> clean l"
  unfolding clean_def by blast

lemma good_line_settled:
  assumes cm: "clean m" and g: "good_line w (split_from pre m) l"
  shows "settled w l \<and> set l \<subseteq> set m"
proof -
  let ?cs = "split_from pre m"
  from g obtain cur where cur: "cur \<noteq> []" "set cur \<subseteq> set ?cs" "l = concat cur"
    "py_strip (last cur) \<noteq> []" "sum_list (map py_len cur) \<le> w \<or> (\<exists>c. cur = [c])"
    unfolding good_line_def by blast
  have chunk_sub: "set c \<subseteq> set m" if "c \<in> set ?cs" for c
  proof -
    have "set c \<subseteq> set (concat ?cs)" using that by auto
    then show ?thesis by (simp only: concat_split_from)
  qed
  have sub: "set l \<subseteq> set m"
    unfolding cur(3) using cur(2) chunk_sub by auto
  have cl: "clean l" using cm sub by (rule clean_subset)
  let ?k = "last cur"
  have kin: "?k \<in> set ?cs" using cur(1,2) last_in_set by blast
  from split_from_chunks [OF kin] have kne: "?k \<noteq> []"
    and uni: "(\<forall>x \<in> set ?k. tw_space x) \<or> (\<forall>x \<in> set ?k. \<not> tw_space x)" by blast+
  have "\<not> (\<forall>x \<in> set ?k. tw_space x)"
  proof
    assume "\<forall>x \<in> set ?k. tw_space x"
    then have "\<forall>x \<in> set ?k. py_isspace x" using tw_space_isspace by blast
    then have "py_strip ?k = []" by (rule py_strip_empty)
    with cur(4) show False by blast
  qed
  with uni have nts: "\<forall>x \<in> set ?k. \<not> tw_space x" by blast
  have nsp: "\<not> py_isspace x" if "x \<in> set ?k" for x
    using clean_not_space [OF cm _ nts [rule_format, OF that]] chunk_sub [OF kin] that by blast
  have lne: "l \<noteq> []" unfolding cur(3) using cur(1) kne
    by (metis concat_eq_Nil_conv last_in_set)
  have "last l = last ?k" unfolding cur(3) using cur(1) kne by (rule last_concat)
  then have la: "\<not> py_isspace (last l)" using nsp [of "last ?k"] kne by simp
  have fit: "py_len l \<le> w \<or> split_from [] l = [l]"
  proof (cases "\<exists>c. cur = [c]")
    case True
    then obtain c where c: "cur = [c]" by blast
    then have "l = ?k" using cur(3) by simp
    moreover have "split_from [] ?k = [?k]" using kin nts by (rule split_from_isolated)
    ultimately show ?thesis by simp
  next
    case False
    with cur(5) have "sum_list (map py_len cur) \<le> w" by blast
    then show ?thesis unfolding cur(3) by (simp add: py_len_concat)
  qed
  from cl lne la fit sub show ?thesis unfolding settled_def by blast
qed

lemma settled_strip: "settled w l \<Longrightarrow> py_strip l \<noteq> []"
  unfolding settled_def using py_strip_nonempty [of "last l" l] by auto

lemma wrap_para_settled: "settled (nat w) l \<Longrightarrow> wrap_para w l = [l]"
  unfolding wrap_para_def using settled_strip [of "nat w" l] rewrap_line [of l "nat w"]
  by (simp add: settled_def)

lemma wrap_para_empty [simp]: "wrap_para w [] = [[]]"
  by (simp add: wrap_para_def py_strip_def)

lemma wrap_para_lines:
  assumes ok: "\<forall>c \<in> set para. py_isspace c \<longrightarrow> tw_space c"
  shows "wrap_para w para \<noteq> []
       \<and> (\<forall>l \<in> set (wrap_para w para).
             l = [] \<or> (settled (nat w) l \<and> set l \<subseteq> insert (CHR 0x20) (set para)))"
proof (cases "py_strip para = []")
  case True
  then show ?thesis by (simp add: wrap_para_def)
next
  case False
  let ?m = "munge_whitespace para"
  let ?cs = "split_from [] ?m"
  have cm: "clean ?m" using ok by (rule clean_munge)
  have al: "alt ?cs" using cm by (rule alt_split_from)
  from wrap_chunks_lines [OF al, of "nat w" "[]"] obtain new where
    n1: "wrap_chunks (nat w) [] ?cs = new"
    and n2: "\<forall>l \<in> set new. good_line (nat w) ?cs l"
    and n3: "(\<exists>c \<in> set ?cs. py_strip c \<noteq> []) \<longrightarrow> new \<noteq> []"
    by auto
  have wp: "wrap_para w para = new" using False n1 by (simp add: wrap_para_def split_chunks_def)
  have "\<not> (\<forall>x \<in> set para. py_isspace x)" using False py_strip_empty by blast
  then obtain x where x: "x \<in> set para" "\<not> py_isspace x" by blast
  then have "\<not> tw_space x" using tw_space_isspace by blast
  with x(1) have "x \<in> set ?m" by (rule munge_keeps)
  then have "x \<in> set (concat ?cs)" by (simp only: concat_split_from)
  then obtain c where c: "c \<in> set ?cs" "x \<in> set c" by auto
  from c(2) x(2) have "py_strip c \<noteq> []" by (rule py_strip_nonempty)
  with c(1) n3 have ne: "new \<noteq> []" by blast
  have "settled (nat w) l \<and> set l \<subseteq> insert (CHR 0x20) (set para)" if "l \<in> set new" for l
  proof -
    from n2 that have "good_line (nat w) ?cs l" by blast
    from good_line_settled [OF cm this] set_munge [of para] show ?thesis by blast
  qed
  with ne wp show ?thesis by blast
qed

lemma wrap_lines_paras:
  "0 < w \<Longrightarrow> wrap_lines text w
     = Inr (concat (map (wrap_para w) (split_nl (xml_escape (text_of text)))))"
  unfolding wrap_lines_def wrap_para_def by (simp add: para_loop_lines)

lemma no_separators_space:
  assumes "no_separators s" "c \<in> set s"
  shows "py_isspace c \<longrightarrow> tw_space c"
  using assms unfolding no_separators_def py_isspace_def tw_space_def by auto

lemma plain_text_chars:
  assumes "plain_text s" "c \<in> set s"
  shows "c \<noteq> CHR ''&''" "c \<noteq> CHR ''<''" "c \<noteq> CHR ''>''" "py_isspace c \<longrightarrow> tw_space c"
  using assms no_separators_space [of s c] unfolding plain_text_def by auto

lemma long_line_chunk:
  assumes ok: "no_separators para"
    and l: "l \<in> set (wrap_chunks w [] (split_chunks para))" and long: "w < py_len l"
  shows "l \<in> set (split_chunks para)"
proof -
  let ?cs = "split_chunks para"
  have cm: "clean (munge_whitespace para)"
    using no_separators_space [OF ok] by (intro clean_munge) blast
  have al: "alt ?cs" unfolding split_chunks_def using cm by (rule alt_split_from)
  from wrap_chunks_lines [OF al, of w "[]"] obtain new where
    n1: "wrap_chunks w [] ?cs = new"
    and n2: "\<forall>l \<in> set new. good_line w ?cs l"
    by auto
  have "l \<in> set new" using l n1 by simp
  with n2 obtain cur where cur: "set cur \<subseteq> set ?cs" "l = concat cur"
    "sum_list (map py_len cur) \<le> w \<or> (\<exists>c. cur = [c])"
    unfolding good_line_def by blast
  have "\<not> sum_list (map py_len cur) \<le> w" using long unfolding cur(2) by (simp add: py_len_concat)
  with cur(3) obtain c where "cur = [c]" by blast
  with cur(1,2) show ?thesis by simp
qed

lemma concat_map_single: "\<forall>x \<in> set xs. f x = [x] \<Longrightarrow> concat (map f xs) = xs"
  by (induction xs) simp_all

lemma fstr_Inr: "fstr th ps = Inr s \<Longrightarrow> s = concat (map (piece_text th) ps)"
proof (induction ps arbitrary: s)
  case Nil
  then show ?case by simp
next
  case (Cons p ps)
  show ?case
  proof (cases p)
    case (Lit t)
    with Cons.prems obtain r where "fstr th ps = Inr r" "s = t @ r"
      by (auto simp: and_then_eq_Inr)
    with Cons.IH [of r] show ?thesis by (simp add: Lit)
  next
    case (Num i)
    with Cons.prems obtain r where "fstr th ps = Inr r" "s = str_int i @ r"
      by (auto simp: and_then_eq_Inr)
    with Cons.IH [of r] show ?thesis by (simp add: Num)
  next
    case (Key k)
    with Cons.prems obtain v r where "th k = Some v" "fstr th ps = Inr r" "s = fmt_tval v @ r"
      by (auto simp: and_then_eq_Inr split: option.splits)
    with Cons.IH [of r] show ?thesis by (simp add: Key)
  qed
qed

lemma build_rules_str_lines:
  assumes "build_rules_str th rules flavor = Inr s"
  shows \<open>\<exists>rx ry rfs rules_lines fx fy ffs flavor_lines pre mid.
           unpack3 th ''rules_txt_rec'' = Inr (rx, ry, rfs)
         \<and> wrap_svg_text rules 60 rfs rx = Inr rules_lines
         \<and> unpack3 th ''flavor_txt_rec'' = Inr (fx, fy, ffs)
         \<and> (if flavor = [] then flavor_lines = []
             else wrap_svg_text (TStr (ldquo @ flavor @ rdquo)) 60 ffs fx = Inr flavor_lines)
         \<and> s = pre @ ''">'' @ rules_lines @ ''</text>'' @ mid @ ''">'' @ flavor_lines @ ''</text>''\<close>
proof -
  from assms obtain box s1 ranchor rules_lines s2 fanchor flavor_lines s3 where
    r1: "unpack3 th ''rules_txt_rec'' = Inr ranchor"
    and r2: "wrap_svg_text rules 60 (snd (snd ranchor)) (fst ranchor) = Inr rules_lines"
    and r3: \<open>fstr th [Lit ''<text x="'', Num (fst ranchor), Lit ''" y="'', Num (fst (snd ranchor)),
                     Lit ''" font-family="'', Key ''font_serif'', Lit ''" font-size="'',
                     Num (snd (snd ranchor)), Lit ''" fill="'', Key ''rules_fg'', Lit ''">'',
                     Lit rules_lines, Lit ''</text>''] = Inr s2\<close>
    and f1: "unpack3 th ''flavor_txt_rec'' = Inr fanchor"
    and f2: "(if flavor \<noteq> [] then wrap_svg_text (TStr (ldquo @ flavor @ rdquo)) 60
                                  (snd (snd fanchor)) (fst fanchor)
              else Inr []) = Inr flavor_lines"
    and f3: \<open>fstr th [Lit ''<text x="'', Num (fst fanchor), Lit ''" y="'', Num (fst (snd fanchor)),
                     Lit ''" font-family="'', Key ''font_serif'', Lit ''" font-size="'',
                     Num (snd (snd fanchor)), Lit ''" font-style="italic" fill="'',
                     Key ''flavor_fg'', Lit ''">'', Lit flavor_lines, Lit ''</text>''] = Inr s3\<close>
    and s: "s = s1 @ s2 @ s3"
    unfolding build_rules_str_def and_then_eq_Inr case_prod_beta by blast
  obtain rx ry rfs where ra: "ranchor = (rx, ry, rfs)" by (cases ranchor)
  obtain fx fy ffs where fa: "fanchor = (fx, fy, ffs)" by (cases fanchor)
  from fstr_Inr [OF r3] obtain p2 where s2: \<open>s2 = p2 @ ''">'' @ rules_lines @ ''</text>''\<close>
    by simp
  from fstr_Inr [OF f3] obtain p3 where s3: \<open>s3 = p3 @ ''">'' @ flavor_lines @ ''</text>''\<close>
    by simp
  have fl: "if flavor = [] then flavor_lines = []
            else wrap_svg_text (TStr (ldquo @ flavor @ rdquo)) 60 ffs fx = Inr flavor_lines"
    using f2 by (auto simp: fa split: if_splits)
  have "s = (s1 @ p2) @ ''\">'' @ rules_lines @ ''</text>'' @ p3 @ ''\">'' @ flavor_lines @ ''</text>''"
    by (simp add: s s2 s3)
  with r1 r2 f1 fl show ?thesis unfolding ra fa fst_conv snd_conv by blast
qed

subsection \<open>Rules and flavor text\<close>




subsection \<open>Wrapping again\<close>




end
